theory Spec2Isabelle
  imports Main "HOL-Library.Word"
begin

section \<open>Characters and strings of the host text\<close>

text \<open>
  A JavaScript string is modelled as a \<^typ>\<open>string\<close>, one \<^typ>\<open>char\<close> per code unit;
  the model's characters are the code units below 256. \<open>is_space\<close> is the regular
  expression class \<^verbatim>\<open>\s\<close> on those code units (TAB, LF, VT, FF, CR, SPACE, NBSP),
  which is also what \<^verbatim>\<open>String.prototype.trim\<close> removes.
\<close>

definition is_space :: "char \<Rightarrow> bool" where
  "is_space c = (of_char c \<in> {9, 10, 11, 12, 13, 32, 160 :: nat})"

definition is_digit :: "char \<Rightarrow> bool" where
  "is_digit c = (48 \<le> (of_char c :: nat) \<and> (of_char c :: nat) \<le> 57)"

definition is_upper :: "char \<Rightarrow> bool" where
  "is_upper c = (65 \<le> (of_char c :: nat) \<and> (of_char c :: nat) \<le> 90)"

definition is_lower :: "char \<Rightarrow> bool" where
  "is_lower c = (97 \<le> (of_char c :: nat) \<and> (of_char c :: nat) \<le> 122)"

text \<open>The class \<^verbatim>\<open>[A-Za-z0-9+/=\s\*]\<close> of the block pattern.\<close>

definition payload_char :: "char \<Rightarrow> bool" where
  "payload_char c =
     (is_upper c \<or> is_lower c \<or> is_digit c \<or> c = CHR ''+'' \<or> c = CHR ''/'' \<or> c = CHR ''=''
      \<or> is_space c \<or> c = CHR ''*'')"

section \<open>The obfuscation mask\<close>

text \<open>
  \<^verbatim>\<open>collectStarIndices\<close>: the loop over \<open>s\<close> with its counter \<open>cleanPos\<close> and the
  array \<open>idx\<close> it pushes to.
\<close>

fun collect_loop :: "string \<Rightarrow> nat \<Rightarrow> nat list \<Rightarrow> nat list" where
  "collect_loop [] cleanPos idx = idx"
| "collect_loop (c # s) cleanPos idx =
     (if c = CHR ''*'' then collect_loop s cleanPos (idx @ [cleanPos])
      else if is_space c then collect_loop s cleanPos idx
      else collect_loop s (cleanPos + 1) idx)"

definition collectStarIndices :: "string \<Rightarrow> nat list" where
  "collectStarIndices s = collect_loop s 0 []"

text \<open>\<^verbatim>\<open>arr.splice(pos, 0, "*")\<close>: a position past the end inserts at the end.\<close>

definition splice_star :: "string \<Rightarrow> nat \<Rightarrow> string" where
  "splice_star arr pos = take pos arr @ CHR ''*'' # drop pos arr"

text \<open>
  \<^verbatim>\<open>reinsertStars\<close>: the positions within the new string, sorted by \<^verbatim>\<open>(a, b) => b - a\<close>
  (descending), spliced in one after the other.
\<close>

definition reinsertStars :: "string \<Rightarrow> nat list \<Rightarrow> string" where
  "reinsertStars b64 starPositions =
     (if starPositions = [] then b64
      else foldl splice_star b64 (rev (sort (filter (\<lambda>n. n \<le> length b64) starPositions))))"

text \<open>\<^verbatim>\<open>inner.replace(/[\s\*]/g, "")\<close>, the mask-stripped encoded string of a block.\<close>

definition cleaned :: "string \<Rightarrow> string" where
  "cleaned inner = filter (\<lambda>c. \<not> (is_space c \<or> c = CHR ''*'')) inner"

section \<open>The library the codec calls\<close>

text \<open>
  \<^verbatim>\<open>atob\<close>, \<^verbatim>\<open>pako\<close> and \<^verbatim>\<open>TextDecoder\<close> are not code of this repository: they are
  parameters of the model. A call that throws is an error value: \<open>Inl\<close> with the message of
  the exception for \<^verbatim>\<open>atob\<close> (the message is read by the caller), \<open>None\<close> for the three
  \<^verbatim>\<open>pako\<close> functions (their exceptions are swallowed). \<^verbatim>\<open>new TextDecoder().decode\<close> is
  the decoder in its default, non-fatal mode: it has a result for every byte sequence, so
  it is a total function.
\<close>

type_synonym byte = "8 word"

record js_lib =
  atob :: "string \<Rightarrow> string + string"
  pako_inflate :: "byte list \<Rightarrow> byte list option"
  pako_inflateRaw :: "byte list \<Rightarrow> byte list option"
  pako_ungzip :: "byte list \<Rightarrow> byte list option"
  text_decode :: "byte list \<Rightarrow> string"

section \<open>The compression adapter\<close>

text \<open>\<^verbatim>\<open>base64ToBytes\<close>: whitespace removed, \<^verbatim>\<open>atob\<close>, then the code of every character.\<close>

definition base64ToBytes :: "js_lib \<Rightarrow> string \<Rightarrow> string + byte list" where
  "base64ToBytes L b64 =
     (case atob L (filter (\<lambda>c. \<not> is_space c) b64) of
        Inl msg \<Rightarrow> Inl msg
      | Inr bin \<Rightarrow> Inr (map of_char bin))"

text \<open>The result of \<^verbatim>\<open>decodeZlibBase64\<close>: \<^verbatim>\<open>{ ok: true, text }\<close> or \<^verbatim>\<open>{ ok: false, error }\<close>.\<close>

datatype decoded = Ok string | NotOk string

text \<open>The array \<^verbatim>\<open>tries\<close> of the three framings, in the order of the source.\<close>

definition tries :: "js_lib \<Rightarrow> (byte list \<Rightarrow> byte list option) list" where
  "tries L = [pako_inflate L, pako_inflateRaw L, pako_ungzip L]"

text \<open>
  The loop \<^verbatim>\<open>for (const t of tries)\<close>: the first call that does not throw is decoded
  as text and returned; when the array is exhausted the error is returned.
\<close>

fun try_loop :: "js_lib \<Rightarrow> (byte list \<Rightarrow> byte list option) list \<Rightarrow> byte list \<Rightarrow> decoded" where
  "try_loop L [] bytes = NotOk ''Unable to inflate with zlib/raw/gzip.''"
| "try_loop L (t # ts) bytes =
     (case t bytes of
        Some out \<Rightarrow> Ok (text_decode L out)
      | None \<Rightarrow> try_loop L ts bytes)"

definition decodeZlibBase64 :: "js_lib \<Rightarrow> string \<Rightarrow> decoded" where
  "decodeZlibBase64 L input =
     (case base64ToBytes L input of
        Inl msg \<Rightarrow> NotOk msg
      | Inr bytes \<Rightarrow> try_loop L (tries L) bytes)"

text \<open>
  Well-formed UTF-8, byte by byte (no overlong form, no surrogate, nothing above
  U+10FFFF): the byte sequences that a decoder accepts without substituting U+FFFD.
\<close>

definition utf8_tail :: "byte \<Rightarrow> bool" where
  "utf8_tail b = (0x80 \<le> b \<and> b \<le> 0xBF)"

fun utf8_valid :: "byte list \<Rightarrow> bool" where
  "utf8_valid [] = True"
| "utf8_valid (b # bs) =
     (if b < 0x80 then utf8_valid bs
      else if 0xC2 \<le> b \<and> b \<le> 0xDF then
        (case bs of c1 # r \<Rightarrow> utf8_tail c1 \<and> utf8_valid r | _ \<Rightarrow> False)
      else if 0xE0 \<le> b \<and> b \<le> 0xEF then
        (case bs of
           c1 # c2 # r \<Rightarrow>
             utf8_tail c1 \<and> utf8_tail c2 \<and> (b = 0xE0 \<longrightarrow> 0xA0 \<le> c1) \<and> (b = 0xED \<longrightarrow> c1 \<le> 0x9F)
             \<and> utf8_valid r
         | _ \<Rightarrow> False)
      else if 0xF0 \<le> b \<and> b \<le> 0xF4 then
        (case bs of
           c1 # c2 # c3 # r \<Rightarrow>
             utf8_tail c1 \<and> utf8_tail c2 \<and> utf8_tail c3 \<and> (b = 0xF0 \<longrightarrow> 0x90 \<le> c1)
             \<and> (b = 0xF4 \<longrightarrow> c1 \<le> 0x8F) \<and> utf8_valid r
         | _ \<Rightarrow> False)
      else False)"

section \<open>The block scanner\<close>

text \<open>
  The interface \<^verbatim>\<open>BlockMatch\<close>. The field \<open>likely\<close> is \<^verbatim>\<open>likelyWaves\<close> in the wave editors and
  \<^verbatim>\<open>likelyEnvironment\<close> in the environment editor, which differ in the list of hints only.
\<close>

record BlockMatch =
  index :: nat
  quote :: char
  innerStart :: nat
  innerEnd :: nat
  original :: string
  cleanedB64 :: string
  starsAt :: "nat list"
  decodedText :: "string option"
  likely :: bool

definition WAVY_HINTS :: "string list" where
  "WAVY_HINTS = [''AddBloon'', ''FollowBezier'', ''CreateTrain'', ''Wave'', ''Bloon'', ''AddWave'']"

definition ENV_HINTS :: "string list" where
  "ENV_HINTS = [''var '', ''const '', ''let '', ''this.'', ''Environment'', ''Config'', ''Setting'']"

definition startsWith :: "string \<Rightarrow> string \<Rightarrow> bool" where
  "startsWith s p = (take (length p) s = p)"

text \<open>\<^verbatim>\<open>s.includes(h)\<close>: \<open>h\<close> occurs in \<open>s\<close> at some position.\<close>

fun str_includes :: "string \<Rightarrow> string \<Rightarrow> bool" where
  "str_includes [] h = (h = [])"
| "str_includes (c # s) h = (startsWith (c # s) h \<or> str_includes s h)"

text \<open>
  The truth value JavaScript gives an optional string (\<^verbatim>\<open>!!decoded\<close>, and an operand of
  \<^verbatim>\<open>&&\<close>): false for \<^verbatim>\<open>undefined\<close> and for the empty string.
\<close>

definition truthy :: "string option \<Rightarrow> bool" where
  "truthy d = (case d of None \<Rightarrow> False | Some t \<Rightarrow> t \<noteq> [])"

definition is_quote :: "char \<Rightarrow> bool" where
  "is_quote c = (c = CHR 0x22 \<or> c = CHR 0x27)"

text \<open>
  The pattern \<^verbatim>\<open>(["'])(([A-Za-z0-9+/=\s\*]{64,}))\1\<close> tried at the start of \<open>s\<close>. Group 1
  is one quote \<open>q\<close>. The greedy repetition first takes the whole run of class characters
  that follows, and gives characters back one at a time, down to 64, until the back
  reference finds \<open>q\<close> right after the repetition. The result is the quote, the text of
  group 2 and the text after the match.
\<close>

definition rx_block_at :: "string \<Rightarrow> (char \<times> string \<times> string) option" where
  "rx_block_at s =
     (case s of
        [] \<Rightarrow> None
      | q # t \<Rightarrow>
          if is_quote q then
            (case filter (\<lambda>n. n < length t \<and> t ! n = q)
                    (rev [64 ..< Suc (length (takeWhile payload_char t))]) of
               [] \<Rightarrow> None
             | n # _ \<Rightarrow> Some (q, take n t, drop (Suc n) t))
          else None)"

text \<open>The body of the loop of \<^verbatim>\<open>parseBlocks\<close> for one match that starts at \<open>pos\<close>.\<close>

definition mk_block :: "js_lib \<Rightarrow> string list \<Rightarrow> nat \<Rightarrow> nat \<Rightarrow> char \<Rightarrow> string \<Rightarrow> BlockMatch" where
  "mk_block L hints idx pos q inner =
     (let decoded = (case decodeZlibBase64 L (cleaned inner) of Ok txt \<Rightarrow> Some txt | NotOk _ \<Rightarrow> None) in
      \<lparr> index = idx, quote = q, innerStart = pos + 1, innerEnd = pos + 1 + length inner,
        original = inner, cleanedB64 = cleaned inner, starsAt = collectStarIndices inner,
        decodedText = decoded,
        likely = (truthy decoded \<and> (case decoded of None \<Rightarrow> False | Some txt \<Rightarrow> list_ex (str_includes txt) hints)) \<rparr>)"

text \<open>
  The loop \<^verbatim>\<open>while ((m = rx.exec(content)) !== null)\<close> of the global pattern: \<open>s\<close> is
  the text from \<open>pos\<close> (the pattern's \<^verbatim>\<open>lastIndex\<close>) on. The search moves right one
  position at a time to the first position where the pattern matches; the next search
  starts right after that match.
\<close>

function scan_loop :: "js_lib \<Rightarrow> string list \<Rightarrow> nat \<Rightarrow> nat \<Rightarrow> string \<Rightarrow> BlockMatch list" where
  "scan_loop L hints pos idx s =
     (case s of
        [] \<Rightarrow> []
      | c # t \<Rightarrow>
          (case rx_block_at s of
             None \<Rightarrow> scan_loop L hints (pos + 1) idx t
           | Some (q, inner, post) \<Rightarrow>
               mk_block L hints idx pos q inner
                 # scan_loop L hints (pos + length inner + 2) (idx + 1) post))"
  by pat_completeness auto
termination
  by (relation "measure (\<lambda>(L, hints, pos, idx, s). length s)")
     (auto simp: rx_block_at_def split: if_splits list.splits)

definition parseBlocks :: "js_lib \<Rightarrow> string list \<Rightarrow> string \<Rightarrow> BlockMatch list" where
  "parseBlocks L hints content = scan_loop L hints 0 0 content"

text \<open>
  The quoted runs of a host text: the positions at which the block pattern matches, which
  are the opening quotes of the runs. The scan finds a run only where it looks for one, to
  the right of the block before.
\<close>

definition run_positions :: "string \<Rightarrow> nat list" where
  "run_positions content =
     filter (\<lambda>p. rx_block_at (drop p content) \<noteq> None) [0 ..< length content]"

text \<open>
  No quoted run opens at the quote that closes another quoted run: where the pattern
  matches, it does not match again at the closing quote of that match.
\<close>

definition no_chained_run :: "string \<Rightarrow> bool" where
  "no_chained_run content =
     list_all (\<lambda>p. case rx_block_at (drop p content) of
                      None \<Rightarrow> True
                    | Some (q, inner, post) \<Rightarrow> rx_block_at (q # post) = None)
       [0 ..< length content]"

section \<open>Opening a file\<close>

text \<open>
  What \<^verbatim>\<open>onOpenFile\<close> leaves behind: the toast "No blocks found", a selected block with
  the text handed to the editor, the toast "Decode failed", or the toast "Open failed" of
  the enclosing \<^verbatim>\<open>catch\<close>.
\<close>

datatype opened = NoBlocksFound | Selected nat string | DecodeFailed | OpenFailed

text \<open>\<^verbatim>\<open>preferred ?? found.find((b) => !!b.decodedText)\<close>.\<close>

definition firstDecodable :: "BlockMatch list \<Rightarrow> BlockMatch option" where
  "firstDecodable found =
     (case find (\<lambda>b. likely b \<and> truthy (decodedText b)) found of
        Some b \<Rightarrow> Some b
      | None \<Rightarrow> find (\<lambda>b. truthy (decodedText b)) found)"

definition onOpenFile :: "js_lib \<Rightarrow> string list \<Rightarrow> string \<Rightarrow> opened" where
  "onOpenFile L hints content =
     (let found = parseBlocks L hints content in
      if found = [] then NoBlocksFound
      else (case firstDecodable found of
              None \<Rightarrow> DecodeFailed
            | Some b \<Rightarrow> (case decodedText b of None \<Rightarrow> OpenFailed | Some txt \<Rightarrow> Selected (index b) txt)))"

section \<open>Export\<close>

text \<open>
  The splice of \<^verbatim>\<open>exportEdited\<close>:
  \<^verbatim>\<open>fileContent.slice(0, blk.innerStart) + finalB64 + fileContent.slice(blk.innerEnd)\<close>,
  where \<open>reB64\<close> is the freshly encoded payload.
\<close>

definition finalB64 :: "BlockMatch \<Rightarrow> string \<Rightarrow> string" where
  "finalB64 blk reB64 = (if starsAt blk \<noteq> [] then reinsertStars reB64 (starsAt blk) else reB64)"

definition newContent :: "string \<Rightarrow> BlockMatch \<Rightarrow> string \<Rightarrow> string" where
  "newContent fileContent blk reB64 =
     take (innerStart blk) fileContent @ finalB64 blk reB64 @ drop (innerEnd blk) fileContent"

definition endsWith :: "string \<Rightarrow> string \<Rightarrow> bool" where
  "endsWith s p = (length p \<le> length s \<and> drop (length s - length p) s = p)"

text \<open>
  \<^verbatim>\<open>fileName.replace(/\.as$/i, repl)\<close>: the pattern can only match the last three
  characters, a dot and the letters a and s in either case.
\<close>

definition replace_as :: "string \<Rightarrow> string \<Rightarrow> string" where
  "replace_as fileName repl =
     (let n = length fileName; e = drop (n - 3) fileName in
      if 3 \<le> n \<and> e ! 0 = CHR ''.'' \<and> (e ! 1 = CHR ''a'' \<or> e ! 1 = CHR ''A'')
         \<and> (e ! 2 = CHR ''s'' \<or> e ! 2 = CHR ''S'')
      then take (n - 3) fileName @ repl
      else fileName)"

text \<open>The suggested download name, in the wave editors and in the environment editor.\<close>

definition suggested_waves :: "string \<Rightarrow> string" where
  "suggested_waves fileName =
     (if endsWith fileName ''.as'' then replace_as fileName ''_edited.as''
      else (if fileName \<noteq> [] then fileName else ''waves'') @ ''_edited.as'')"

definition suggested_environment :: "string \<Rightarrow> string" where
  "suggested_environment fileName =
     (if endsWith fileName ''.as'' then replace_as fileName ''_env_edited.as''
      else (if fileName \<noteq> [] then fileName else ''environment'') @ ''_edited.as'')"

section \<open>A sample library and sample host texts\<close>

text \<open>
  Concrete values for the library parameters, for the examples below. \<open>atob_model\<close> is the
  forgiving base64 decoding that the HTML standard prescribes for \<^verbatim>\<open>atob\<close>: ASCII
  whitespace is dropped, one or two closing \<^verbatim>\<open>=\<close> are dropped when the length is a multiple
  of four, a length of 1 modulo 4 or a character outside the alphabet is an error, and the
  sextets are packed into octets, left-over bits discarded.
\<close>

definition b64_index :: "char \<Rightarrow> nat option" where
  "b64_index c =
     (if is_upper c then Some (of_char c - 65)
      else if is_lower c then Some (of_char c - 71)
      else if is_digit c then Some (of_char c + 4)
      else if c = CHR ''+'' then Some 62
      else if c = CHR ''/'' then Some 63
      else None)"

fun b64_groups :: "nat list \<Rightarrow> nat list" where
  "b64_groups (a # b # c # d # r) =
     (let n = ((a * 64 + b) * 64 + c) * 64 + d
      in (n div 65536) # (n div 256 mod 256) # (n mod 256) # b64_groups r)"
| "b64_groups [a, b, c] = (let n = (a * 64 + b) * 64 + c in [n div 1024, n div 4 mod 256])"
| "b64_groups [a, b] = [(a * 64 + b) div 16]"
| "b64_groups _ = []"

definition atob_model :: "string \<Rightarrow> string + string" where
  "atob_model data =
     (let d1 = filter (\<lambda>c. of_char c \<notin> {9, 10, 12, 13, 32 :: nat}) data;
          d2 = (if length d1 mod 4 = 0 then
                  (if endsWith d1 ''=='' then butlast (butlast d1)
                   else if endsWith d1 ''='' then butlast d1 else d1)
                else d1)
      in if length d2 mod 4 = 1 then Inl ''InvalidCharacterError''
         else (case those (map b64_index d2) of
                 None \<Rightarrow> Inl ''InvalidCharacterError''
               | Some v \<Rightarrow> Inr (map char_of (b64_groups v))))"

text \<open>
  Byte sequences of the examples below. \<open>zlib_empty\<close> is the zlib stream of the empty
  text, \<open>zlib_FF\<close> a zlib stream with one stored block that holds the single byte \<open>0xFF\<close>,
  \<open>raw_empty\<close> the raw deflate stream of the empty text and \<open>gzip_empty\<close> the gzip stream of
  the empty text. \<open>cut_stored\<close> is the start of a raw deflate stream that breaks off inside
  its first block, and \<open>no_stream\<close> starts no stream of any framing: as a zlib or gzip
  header it fails the header check, as a deflate block it has the reserved block type.
\<close>

definition zlib_empty :: "byte list" where
  "zlib_empty = [0x78, 0x9C, 0x03, 0x00, 0x00, 0x00, 0x00, 0x01]"

definition zlib_FF :: "byte list" where
  "zlib_FF = [0x78, 0x01, 0x01, 0x01, 0x00, 0xFE, 0xFF, 0xFF, 0x01, 0x00, 0x01, 0x00]"

definition raw_empty :: "byte list" where
  "raw_empty = [0x03, 0x00]"

definition gzip_empty :: "byte list" where
  "gzip_empty = [0x1F, 0x8B, 0x08, 0x00, 0x00, 0x00, 0x00, 0x00, 0x00, 0x03,
                 0x03, 0x00, 0x00, 0x00, 0x00, 0x00, 0x00, 0x00, 0x00, 0x00]"

definition cut_stored :: "byte list" where
  "cut_stored = [0x00, 0x00, 0x00]"

definition no_stream :: "byte list" where
  "no_stream = [0xFF, 0xFF, 0xFF]"

text \<open>
  The first byte of a raw deflate stream holds, from its lowest bit, the flag of the last
  block and the two bits of the block type. Type 0 is a stored block: its length and the
  complement of its length fill the next four bytes. A byte sequence that opens a stored
  block and has fewer than five bytes breaks off inside the header of that block, so it is
  not a deflate stream.
\<close>

definition stored_block_cut :: "byte list \<Rightarrow> bool" where
  "stored_block_cut bytes =
     (case bytes of [] \<Rightarrow> False | b # r \<Rightarrow> unat b div 2 mod 4 = 0 \<and> length r < 4)"

text \<open>
  The sample library is the table of what \<^verbatim>\<open>pako\<close> does with these byte sequences.
  \<^verbatim>\<open>pako.inflate\<close> detects the zlib and the gzip header alike, so it reads \<open>zlib_empty\<close>,
  \<open>zlib_FF\<close> and \<open>gzip_empty\<close>; it throws on \<open>raw_empty\<close>, \<open>cut_stored\<close> and \<open>no_stream\<close>,
  which have no valid header. \<^verbatim>\<open>pako.inflateRaw\<close> reads \<open>raw_empty\<close> and throws on
  \<open>no_stream\<close>; given \<open>cut_stored\<close> it consumes the three bytes, waits for more input and
  returns without an exception and without output, for which the text decoder gives the
  empty text: the entry is \<open>Some []\<close>. \<^verbatim>\<open>pako.ungzip\<close> is the function \<^verbatim>\<open>pako.inflate\<close>
  under a second name. The sample functions throw at every other byte sequence as well;
  no example below takes a function there as the first call that returns.
\<close>

definition sample_inflate :: "byte list \<Rightarrow> byte list option" where
  "sample_inflate bytes =
     (if bytes = zlib_empty \<or> bytes = gzip_empty then Some []
      else if bytes = zlib_FF then Some [0xFF]
      else None)"

definition sample_inflateRaw :: "byte list \<Rightarrow> byte list option" where
  "sample_inflateRaw bytes = (if bytes = raw_empty \<or> bytes = cut_stored then Some [] else None)"

definition sample_ungzip :: "byte list \<Rightarrow> byte list option" where
  "sample_ungzip bytes = sample_inflate bytes"

text \<open>
  The non-fatal decoder on ASCII: an ASCII byte is its character; any other byte is shown
  as \<open>replacement_character\<close>, which stands for what the decoder substitutes (U+FFFD is
  not a character of the model).
\<close>

definition replacement_character :: char where
  "replacement_character = CHR ''?''"

definition sample_text_decode :: "byte list \<Rightarrow> string" where
  "sample_text_decode out = map (\<lambda>b. if b < 0x80 then char_of (unat b) else replacement_character) out"

definition sample_lib :: js_lib where
  "sample_lib =
     \<lparr> atob = atob_model, pako_inflate = sample_inflate, pako_inflateRaw = sample_inflateRaw,
       pako_ungzip = sample_ungzip, text_decode = sample_text_decode \<rparr>"

text \<open>A quoted literal of 65 characters: 32 times A, one space, 32 times A.\<close>

definition inner_spaced :: string where
  "inner_spaced = replicate 32 (CHR ''A'') @ '' '' @ replicate 32 (CHR ''A'')"

definition host_spaced :: string where
  "host_spaced = CHR 0x22 # inner_spaced @ [CHR 0x22]"

text \<open>A quoted literal of 65 characters without whitespace: 32 times A, one star, 32 times A.\<close>

definition inner_starred :: string where
  "inner_starred = replicate 32 (CHR ''A'') @ ''*'' @ replicate 32 (CHR ''A'')"

definition host_starred :: string where
  "host_starred = CHR 0x22 # inner_starred @ [CHR 0x22]"

text \<open>
  A quoted literal of 66 characters that is wrapped and masked: 48 times A, a line feed,
  one star, 16 times A.
\<close>

definition inner_wrapped :: string where
  "inner_wrapped = replicate 48 (CHR ''A'') @ [CHR 0x0A] @ ''*'' @ replicate 16 (CHR ''A'')"

definition host_wrapped :: string where
  "host_wrapped = CHR 0x22 # inner_wrapped @ [CHR 0x22]"

text \<open>
  A quoted literal of 64 characters whose payload is the zlib stream of the empty text in
  base64, filled up with spaces.
\<close>

definition inner_empty_payload :: string where
  "inner_empty_payload = ''eJwDAAAAAAE='' @ replicate 52 (CHR '' '')"

definition host_empty_payload :: string where
  "host_empty_payload = CHR 0x22 # inner_empty_payload @ [CHR 0x22]"

text \<open>A quoted literal of 64 spaces.\<close>

definition inner_blank :: string where
  "inner_blank = replicate 64 (CHR '' '')"

definition host_blank :: string where
  "host_blank = CHR 0x22 # inner_blank @ [CHR 0x22]"

text \<open>
  The short literal \<^verbatim>\<open>"hi"\<close>, 64 times A, and the literal of 64 times B: the quote that
  opens the second literal closes a run of 64 class characters that the closing quote of
  the first literal opens.
\<close>

definition host_chain :: string where
  "host_chain = CHR 0x22 # ''hi'' @ CHR 0x22 # replicate 64 (CHR ''A'')
     @ CHR 0x22 # replicate 64 (CHR ''B'') @ [CHR 0x22]"

text \<open>
  Four lines of host text: a short literal followed by a space, a short literal that
  holds an apostrophe and is followed by a line feed, a masked literal of 65 class
  characters in single quotes, and a literal of 65 class characters in double quotes.
\<close>

definition host_mixed :: string where
  "host_mixed = ''x = '' @ CHR 0x22 # ''abc'' @ CHR 0x22 # '' + y;'' @ [CHR 0x0A]
     @ ''s = '' @ CHR 0x22 # ''it's'' @ CHR 0x22 # [CHR 0x0A]
     @ ''w = '' @ CHR 0x27 # inner_starred @ CHR 0x27 # '';'' @ [CHR 0x0A]
     @ ''v = '' @ CHR 0x22 # inner_spaced @ CHR 0x22 # '';''"

text \<open>
  A quoted literal of 64 characters whose payload is the zlib stream of the byte \<open>0xFF\<close> in
  base64, filled up with spaces.
\<close>

definition inner_invalid_utf8 :: string where
  "inner_invalid_utf8 = ''eAEBAQD+//8BAAEA'' @ replicate 48 (CHR '' '')"

definition host_invalid_utf8 :: string where
  "host_invalid_utf8 = CHR 0x22 # inner_invalid_utf8 @ [CHR 0x22]"

section \<open>Lines of the decoded text\<close>

text \<open>
  \<^verbatim>\<open>text.split(/\r?\n/)\<close>: the text is cut at every line feed, and a carriage return
  right before the line feed belongs to the separator. \<open>cur\<close> is the line being read.
\<close>

fun split_loop :: "string \<Rightarrow> string \<Rightarrow> string list" where
  "split_loop cur [] = [cur]"
| "split_loop cur [c] = (if c = CHR 0x0A then [cur, []] else [cur @ [c]])"
| "split_loop cur (c # d # s) =
     (if c = CHR 0x0A then cur # split_loop [] (d # s)
      else if c = CHR 0x0D \<and> d = CHR 0x0A then cur # split_loop [] s
      else split_loop (cur @ [c]) (d # s))"

definition split_lines :: "string \<Rightarrow> string list" where
  "split_lines text = split_loop [] text"

text \<open>\<^verbatim>\<open>s.trim()\<close>.\<close>

definition trim :: "string \<Rightarrow> string" where
  "trim s = rev (dropWhile is_space (rev (dropWhile is_space s)))"

text \<open>
  A character of the text against a character of a pattern with the flag \<^verbatim>\<open>i\<close>: the same
  character, or the same ASCII letter in the other case.
\<close>

definition ci_eq :: "char \<Rightarrow> char \<Rightarrow> bool" where
  "ci_eq c p =
     (c = p \<or> (is_lower p \<and> (of_char c :: nat) + 32 = of_char p)
      \<or> (is_upper p \<and> (of_char c :: nat) = of_char p + 32))"

definition ci_startsWith :: "string \<Rightarrow> string \<Rightarrow> bool" where
  "ci_startsWith s p = (length p \<le> length s \<and> list_all2 ci_eq (take (length p) s) p)"

fun ci_includes :: "string \<Rightarrow> string \<Rightarrow> bool" where
  "ci_includes [] p = (p = [])"
| "ci_includes (c # s) p = (ci_startsWith (c # s) p \<or> ci_includes s p)"

text \<open>A number in a template literal, in decimal.\<close>

function show_nat :: "nat \<Rightarrow> string" where
  "show_nat n = (if n < 10 then [''0123456789'' ! n] else show_nat (n div 10) @ [''0123456789'' ! (n mod 10)])"
  by pat_completeness auto
termination
  by (relation "measure id") auto

section \<open>The wave parser\<close>

record Event =
  event_index :: nat
  event_type :: string
  event_content :: string

record Wave =
  wave_index :: nat
  wave_content :: string
  events :: "Event list"

text \<open>The chain of \<^verbatim>\<open>includes\<close> tests that gives an event its type.\<close>

definition eventType :: "string \<Rightarrow> string" where
  "eventType line =
     (if str_includes line ''AddBloon'' then ''AddBloon''
      else if str_includes line ''FollowBezier'' then ''FollowBezier''
      else if str_includes line ''CreateTrain'' then ''CreateTrain''
      else ''Unknown'')"

text \<open>\<^verbatim>\<open>orphanedLines.map((orphanLine, orphanIndex) => ...)\<close>.\<close>

definition orphan_events :: "string list \<Rightarrow> Event list" where
  "orphan_events ls =
     map (\<lambda>(i, l). \<lparr> event_index = i, event_type = eventType l, event_content = l \<rparr>) (enumerate 0 ls)"

text \<open>\<^verbatim>\<open>/^Wave\s*\d+/i\<close>: the word, any whitespace, and one digit at least.\<close>

definition rx_wave_header :: "string \<Rightarrow> bool" where
  "rx_wave_header t =
     (ci_startsWith t ''Wave''
      \<and> (case dropWhile is_space (drop 4 t) of [] \<Rightarrow> False | d # _ \<Rightarrow> is_digit d))"

definition isWaveStart :: "string \<Rightarrow> nat \<Rightarrow> bool" where
  "isWaveStart line idx =
     (str_includes line ''AddWave'' \<or> str_includes line ''CreateTrain''
      \<or> rx_wave_header (trim line)
      \<or> (str_includes line ''('' \<and> str_includes line '')'' \<and> idx = 0))"

text \<open>The three variables of the loop of \<^verbatim>\<open>parseWaves\<close>.\<close>

record wave_state =
  waves :: "Wave list"
  currentWave :: "Wave option"
  orphanedLines :: "string list"

text \<open>The body of \<^verbatim>\<open>lines.forEach((line, index) => ...)\<close>.\<close>

definition wave_step :: "wave_state \<Rightarrow> nat \<times> string \<Rightarrow> wave_state" where
  "wave_step st p =
     (case p of (idx, line) \<Rightarrow>
        if isWaveStart line idx then
          (let st1 = (if orphanedLines st \<noteq> [] \<and> currentWave st = None
                      then st\<lparr> waves := waves st @
                                [\<lparr> wave_index = length (waves st),
                                   wave_content = ''Wave '' @ show_nat (length (waves st) + 1),
                                   events = orphan_events (orphanedLines st) \<rparr>],
                              orphanedLines := [] \<rparr>
                      else st);
               st2 = (case currentWave st1 of
                        Some w \<Rightarrow> st1\<lparr> waves := waves st1 @ [w] \<rparr>
                      | None \<Rightarrow> st1)
           in st2\<lparr> currentWave := Some \<lparr> wave_index = length (waves st2), wave_content = line, events = [] \<rparr> \<rparr>)
        else
          (case currentWave st of
             Some w \<Rightarrow>
               st\<lparr> currentWave := Some (w\<lparr> events := events w @
                      [\<lparr> event_index = length (events w), event_type = eventType line,
                         event_content = line \<rparr>] \<rparr>) \<rparr>
           | None \<Rightarrow> st\<lparr> orphanedLines := orphanedLines st @ [line] \<rparr>))"

text \<open>What follows the loop: the remaining orphaned lines, then the open wave.\<close>

definition wave_finish :: "wave_state \<Rightarrow> Wave list" where
  "wave_finish st =
     (let w1 = (if orphanedLines st \<noteq> [] \<and> waves st = [] \<and> currentWave st = None
                then waves st @ [\<lparr> wave_index = 0, wave_content = ''Wave 1'',
                                   events = orphan_events (orphanedLines st) \<rparr>]
                else waves st)
      in case currentWave st of Some w \<Rightarrow> w1 @ [w] | None \<Rightarrow> w1)"

text \<open>The lines that the parser reads: \<^verbatim>\<open>decodedText.split(/\r?\n/).filter(line => line.trim())\<close>.\<close>

definition wave_lines :: "string \<Rightarrow> string list" where
  "wave_lines txt = filter (\<lambda>line. trim line \<noteq> []) (split_lines txt)"

definition parseWaves :: "string \<Rightarrow> Wave list" where
  "parseWaves txt =
     wave_finish (foldl wave_step \<lparr> waves = [], currentWave = None, orphanedLines = [] \<rparr>
        (enumerate 0 (wave_lines txt)))"

text \<open>The four lines of the example, joined by line feeds.\<close>

definition example_waves :: string where
  "example_waves = ''CreateTrain(1)'' @ [CHR 0x0A] @ ''AddBloon(Red)'' @ [CHR 0x0A]
     @ ''AddWave(2)'' @ [CHR 0x0A] @ ''AddBloon(Blue)''"

text \<open>Two lines without a wave start, a blank line between them.\<close>

definition example_orphans :: string where
  "example_orphans = ''MoveTo 3'' @ [CHR 0x0D, CHR 0x0A] @ ''  '' @ [CHR 0x0A] @ ''AddBloon(Red)''"

text \<open>Three blank lines: two spaces, a tab, and nothing.\<close>

definition example_blank :: string where
  "example_blank = ''  '' @ [CHR 0x0D, CHR 0x0A] @ [CHR 0x09] @ [CHR 0x0A]"
section \<open>The declaration parser\<close>

datatype value_type = String | Number | Boolean | Array | Object

record EnvironmentVariable =
  var_name :: string
  var_value :: string
  var_type :: value_type
  category :: string
  rawLine :: string

text \<open>The classes \<^verbatim>\<open>\w\<close> and \<^verbatim>\<open>.\<close> (any character but a line terminator).\<close>

definition is_word :: "char \<Rightarrow> bool" where
  "is_word c = (is_upper c \<or> is_lower c \<or> is_digit c \<or> c = CHR ''_'')"

definition is_dot_char :: "char \<Rightarrow> bool" where
  "is_dot_char c = (c \<noteq> CHR 0x0A \<and> c \<noteq> CHR 0x0D)"

text \<open>
  The end \<^verbatim>\<open>\s*(.+);?\<close> of the three patterns, tried at the start of \<open>r\<close>. The greedy
  \<^verbatim>\<open>\s*\<close> first takes all the whitespace and gives characters back one at a time until
  \<^verbatim>\<open>.+\<close> finds a character to start with; \<^verbatim>\<open>.+\<close> then runs up to the next line
  terminator, so that nothing is left for \<^verbatim>\<open>;?\<close>. The result is the text of the group.
\<close>

definition rx_value :: "string \<Rightarrow> string option" where
  "rx_value r =
     (case filter (\<lambda>m. m < length r \<and> is_dot_char (r ! m))
             (rev [0 ..< Suc (length (takeWhile is_space r))]) of
        [] \<Rightarrow> None
      | m # _ \<Rightarrow> Some (takeWhile is_dot_char (drop m r)))"

text \<open>
  \<^verbatim>\<open>(\w+)\s*[:=]\s*(.+);?\<close> tried at the start of \<open>s\<close>: the name is the whole run of word
  characters (after a shorter name comes a word character, which is neither whitespace
  nor one of \<^verbatim>\<open>:\<close> and \<^verbatim>\<open>=\<close>).
\<close>

definition rx_assign_at :: "string \<Rightarrow> (string \<times> string) option" where
  "rx_assign_at s =
     (let name = takeWhile is_word s in
      if name = [] then None
      else (case dropWhile is_space (dropWhile is_word s) of
              [] \<Rightarrow> None
            | c # r \<Rightarrow>
                if c = CHR '':'' \<or> c = CHR ''='' then
                  (case rx_value r of None \<Rightarrow> None | Some v \<Rightarrow> Some (name, v))
                else None))"

text \<open>\<^verbatim>\<open>(?:var|const|let)\s+\<close> and \<^verbatim>\<open>this\.\<close> in front of it.\<close>

definition rx_decl_at :: "string \<Rightarrow> (string \<times> string) option" where
  "rx_decl_at s =
     (let after = (if startsWith s ''var'' then Some (drop 3 s)
                   else if startsWith s ''const'' then Some (drop 5 s)
                   else if startsWith s ''let'' then Some (drop 3 s)
                   else None)
      in case after of
           None \<Rightarrow> None
         | Some r \<Rightarrow> if takeWhile is_space r = [] then None else rx_assign_at (dropWhile is_space r))"

definition rx_this_at :: "string \<Rightarrow> (string \<times> string) option" where
  "rx_this_at s = (if startsWith s ''this.'' then rx_assign_at (drop 5 s) else None)"

text \<open>\<^verbatim>\<open>line.match(pattern)\<close> of a pattern without anchor: the leftmost position that matches.\<close>

fun rx_search :: "(string \<Rightarrow> 'a option) \<Rightarrow> string \<Rightarrow> 'a option" where
  "rx_search f [] = f []"
| "rx_search f (c # s) = (case f (c # s) of Some m \<Rightarrow> Some m | None \<Rightarrow> rx_search f s)"

definition patterns :: "(string \<Rightarrow> (string \<times> string) option) list" where
  "patterns = [rx_search rx_decl_at, rx_search rx_this_at, rx_search rx_assign_at]"

text \<open>\<^verbatim>\<open>/^(true|false)$/i\<close> and \<^verbatim>\<open>/^-?\d+(\.\d+)?$/\<close>.\<close>

definition rx_boolean :: "string \<Rightarrow> bool" where
  "rx_boolean v =
     ((length v = 4 \<and> ci_startsWith v ''true'') \<or> (length v = 5 \<and> ci_startsWith v ''false''))"

definition rx_number :: "string \<Rightarrow> bool" where
  "rx_number v =
     (let u = (case v of c # r \<Rightarrow> if c = CHR ''-'' then r else v | [] \<Rightarrow> v) in
      takeWhile is_digit u \<noteq> []
      \<and> (case dropWhile is_digit u of
            [] \<Rightarrow> True
          | c # r \<Rightarrow> c = CHR ''.'' \<and> r \<noteq> [] \<and> list_all is_digit r))"

definition infer_type :: "string \<Rightarrow> value_type" where
  "infer_type cleanValue =
     (if rx_boolean cleanValue then Boolean
      else if rx_number cleanValue then Number
      else if startsWith cleanValue ''['' \<and> endsWith cleanValue '']'' then Array
      else if startsWith cleanValue ''{'' \<and> endsWith cleanValue ''}'' then Object
      else String)"

definition infer_category :: "string \<Rightarrow> string" where
  "infer_category name =
     (if list_ex (ci_includes name) [''speed'', ''velocity'', ''rate'', ''time'', ''delay''] then ''Performance''
      else if list_ex (ci_includes name) [''color'', ''rgb'', ''hex'', ''alpha''] then ''Visual''
      else if list_ex (ci_includes name) [''sound'', ''audio'', ''volume'', ''music''] then ''Audio''
      else if list_ex (ci_includes name)
                [''width'', ''height'', ''size'', ''scale'', ''position'', ''x'', ''y'', ''z''] then ''Layout''
      else if list_ex (ci_includes name) [''health'', ''damage'', ''score'', ''points'', ''lives''] then ''Game''
      else if list_ex (ci_includes name) [''debug'', ''test'', ''dev'', ''log''] then ''Debug''
      else ''General'')"

text \<open>\<^verbatim>\<open>value.replace(/[;,]/g, '').trim()\<close>.\<close>

definition clean_value :: "string \<Rightarrow> string" where
  "clean_value v = trim (filter (\<lambda>c. c \<noteq> CHR '';'' \<and> c \<noteq> CHR '','') v)"

text \<open>The loop \<^verbatim>\<open>for (const pattern of patterns)\<close>, left at the first pattern that matches.\<close>

fun pattern_loop :: "(string \<Rightarrow> (string \<times> string) option) list \<Rightarrow> string \<Rightarrow> EnvironmentVariable option" where
  "pattern_loop [] trimmedLine = None"
| "pattern_loop (pattern # ps) trimmedLine =
     (case pattern trimmedLine of
        None \<Rightarrow> pattern_loop ps trimmedLine
      | Some (name, v) \<Rightarrow>
          Some \<lparr> var_name = name, var_value = clean_value v, var_type = infer_type (clean_value v),
                 category = infer_category name, rawLine = trimmedLine \<rparr>)"

text \<open>The body of \<^verbatim>\<open>lines.forEach((line) => ...)\<close>: the variable pushed for a line, if any.\<close>

definition parse_line :: "string \<Rightarrow> EnvironmentVariable option" where
  "parse_line line =
     (let trimmedLine = trim line in
      if trimmedLine = [] \<or> startsWith trimmedLine ''//'' \<or> startsWith trimmedLine ''/*'' then None
      else pattern_loop patterns trimmedLine)"

definition parseEnvironmentVariables :: "string \<Rightarrow> EnvironmentVariable list" where
  "parseEnvironmentVariables txt = List.map_filter parse_line (split_lines txt)"

section \<open>Editing a variable\<close>

record editor_state =
  environmentVars :: "EnvironmentVariable list"
  editingVar :: "EnvironmentVariable option"

definition handleSaveVar :: "editor_state \<Rightarrow> editor_state" where
  "handleSaveVar st =
     (case editingVar st of
        None \<Rightarrow> st
      | Some e \<Rightarrow>
          st\<lparr> environmentVars := map (\<lambda>v. if var_name v = var_name e then e else v) (environmentVars st),
              editingVar := None \<rparr>)"

text \<open>Two variables, and an edit of the first one under a new name.\<close>

definition var_speed :: EnvironmentVariable where
  "var_speed = \<lparr> var_name = ''speed'', var_value = ''3'', var_type = Number,
                  category = ''Performance'', rawLine = ''var speed = 3;'' \<rparr>"

definition var_debug :: EnvironmentVariable where
  "var_debug = \<lparr> var_name = ''debug'', var_value = ''true'', var_type = Boolean,
                  category = ''Debug'', rawLine = ''var debug = true;'' \<rparr>"

definition renamed_edit :: editor_state where
  "renamed_edit = \<lparr> environmentVars = [var_speed, var_debug],
                     editingVar = Some (var_speed\<lparr> var_name := ''velocity'', var_value := ''5'' \<rparr>) \<rparr>"

definition value_edit :: editor_state where
  "value_edit = \<lparr> environmentVars = [var_speed, var_debug],
                   editingVar = Some (var_speed\<lparr> var_value := ''5'' \<rparr>) \<rparr>"

text \<open>Three blocks: one that failed to decode, one with plain text, one with a hint.\<close>

definition sample_found :: "BlockMatch list" where
  "sample_found =
     [\<lparr> index = 0, quote = CHR 0x22, innerStart = 1, innerEnd = 65, original = inner_spaced,
         cleanedB64 = cleaned inner_spaced, starsAt = [], decodedText = None, likely = False \<rparr>,
      \<lparr> index = 1, quote = CHR 0x22, innerStart = 70, innerEnd = 135, original = inner_starred,
         cleanedB64 = cleaned inner_starred, starsAt = [32], decodedText = Some ''x = 1'', likely = False \<rparr>,
      \<lparr> index = 2, quote = CHR 0x27, innerStart = 140, innerEnd = 205, original = inner_starred,
         cleanedB64 = cleaned inner_starred, starsAt = [32], decodedText = Some ''AddWave(1)'', likely = True \<rparr>]"

section \<open>Properties of the mask\<close>

lemma collect_loop_acc: "collect_loop s cp idx = idx @ collect_loop s cp []"
proof (induction s arbitrary: cp idx)
  case Nil
  show ?case by simp
next
  case (Cons c s)
  show ?case
  proof (cases "c = CHR ''*''")
    case True
    have "collect_loop (c # s) cp idx = (idx @ [cp]) @ collect_loop s cp []"
      using True Cons.IH [of cp "idx @ [cp]"] by simp
    moreover have "collect_loop (c # s) cp [] = [cp] @ collect_loop s cp []"
      using True Cons.IH [of cp "[cp]"] by simp
    ultimately show ?thesis by simp
  next
    case False
    show ?thesis
    proof (cases "is_space c")
      case True
      then show ?thesis using False Cons.IH [of cp idx] by simp
    next
      case nsp: False
      then show ?thesis using False Cons.IH [of "cp + 1" idx] by simp
    qed
  qed
qed

lemma collect_loop_append:
  "collect_loop (a @ b) cp idx = collect_loop b (cp + length (cleaned a)) (collect_loop a cp idx)"
  by (induction a arbitrary: cp idx) (simp_all add: cleaned_def)

lemma collect_loop_no_star: "CHR ''*'' \<notin> set s \<Longrightarrow> collect_loop s cp idx = idx"
  by (induction s arbitrary: cp) auto

lemma collect_loop_bounds:
  "p \<in> set (collect_loop s cp []) \<Longrightarrow> cp \<le> p \<and> p \<le> cp + length (cleaned s)"
proof (induction s arbitrary: cp)
  case Nil
  then show ?case by simp
next
  case (Cons c s)
  show ?case
  proof (cases "c = CHR ''*''")
    case True
    then have "collect_loop (c # s) cp [] = cp # collect_loop s cp []"
      using collect_loop_acc [of s cp "[cp]"] by simp
    with Cons True show ?thesis by (auto simp: cleaned_def)
  next
    case False
    with Cons show ?thesis by (fastforce simp: cleaned_def split: if_splits)
  qed
qed

lemma sorted_collect_loop: "sorted (collect_loop s cp [])"
proof (induction s arbitrary: cp)
  case Nil
  show ?case by simp
next
  case (Cons c s)
  show ?case
  proof (cases "c = CHR ''*''")
    case True
    then have "collect_loop (c # s) cp [] = cp # collect_loop s cp []"
      using collect_loop_acc [of s cp "[cp]"] by simp
    then show ?thesis using Cons.IH [of cp] collect_loop_bounds [of _ s cp] by auto
  next
    case False
    then show ?thesis using Cons.IH by simp
  qed
qed

lemma length_splice_star: "length (splice_star a p) = Suc (length a)"
  by (simp add: splice_star_def)

lemma cleaned_splice_star: "cleaned (splice_star a p) = cleaned a"
proof -
  have "cleaned (take p a @ drop p a) = cleaned a" by simp
  then show ?thesis by (simp add: splice_star_def cleaned_def del: append_take_drop_id)
qed

lemma cleaned_foldl_splice: "cleaned (foldl splice_star a ds) = cleaned a"
  by (induction ds arbitrary: a) (simp_all add: cleaned_splice_star)

lemma length_foldl_splice: "length (foldl splice_star a ds) = length a + length ds"
  by (induction ds arbitrary: a) (simp_all add: length_splice_star)

lemma splice_star_append: "d \<le> length a \<Longrightarrow> splice_star (a @ x) d = splice_star a d @ x"
  by (simp add: splice_star_def)

lemma foldl_splice_append:
  "\<forall>d\<in>set ds. d \<le> length a \<Longrightarrow> foldl splice_star (a @ x) ds = foldl splice_star a ds @ x"
proof (induction ds arbitrary: a)
  case Nil
  show ?case by simp
next
  case (Cons d ds)
  have "\<forall>e\<in>set ds. e \<le> length (splice_star a d)"
    using Cons.prems by (simp add: length_splice_star le_Suc_eq)
  then show ?case using Cons.prems Cons.IH [of "splice_star a d"]
    by (simp add: splice_star_append)
qed

text \<open>
  One step of the descending loop: the highest position splits the string, and the
  remaining, lower positions only touch the part before the star just inserted.
\<close>

lemma foldl_splice_Cons:
  assumes "sorted (rev (d # ds))" "d \<le> length s"
  shows "foldl splice_star s (d # ds) = foldl splice_star (take d s) ds @ CHR ''*'' # drop d s"
proof -
  have le: "\<forall>e\<in>set ds. e \<le> length (take d s)"
    using assms by (auto simp: sorted_append)
  have "foldl splice_star s (d # ds) = foldl splice_star (take d s @ CHR ''*'' # drop d s) ds"
    by (simp add: splice_star_def)
  also have "\<dots> = foldl splice_star (take d s) ds @ CHR ''*'' # drop d s"
    by (rule foldl_splice_append [OF le])
  finally show ?thesis .
qed

lemma cleaned_id: "\<forall>c\<in>set s. \<not> is_space c \<and> c \<noteq> CHR ''*'' \<Longrightarrow> cleaned s = s"
  by (induction s) (simp_all add: cleaned_def)

lemma collect_foldl_splice:
  "\<forall>c\<in>set s. \<not> is_space c \<and> c \<noteq> CHR ''*'' \<Longrightarrow> sorted (rev ds) \<Longrightarrow> \<forall>d\<in>set ds. d \<le> length s
    \<Longrightarrow> collect_loop (foldl splice_star s ds) 0 [] = rev ds"
proof (induction ds arbitrary: s)
  case Nil
  then have "CHR ''*'' \<notin> set s" by blast
  then show ?case by (simp add: collect_loop_no_star)
next
  case (Cons d ds)
  let ?a = "take d s"
  have d: "d \<le> length s" using Cons.prems by simp
  have le: "\<forall>e\<in>set ds. e \<le> d" using Cons.prems(2) by (auto simp: sorted_append)
  have la: "length ?a = d" using d by simp
  have clean_a: "\<forall>c\<in>set ?a. \<not> is_space c \<and> c \<noteq> CHR ''*''"
    using Cons.prems(1) in_set_takeD [of _ d s] by blast
  have clean_b: "CHR ''*'' \<notin> set (drop d s)"
    using Cons.prems(1) in_set_dropD [of "CHR ''*''" d s] by blast
  have IH: "collect_loop (foldl splice_star ?a ds) 0 [] = rev ds"
  proof (rule Cons.IH)
    show "\<forall>c\<in>set ?a. \<not> is_space c \<and> c \<noteq> CHR ''*''" by (rule clean_a)
    show "sorted (rev ds)" using Cons.prems(2) by (simp add: sorted_append)
    show "\<forall>e\<in>set ds. e \<le> length ?a" using le la by simp
  qed
  have eq: "foldl splice_star s (d # ds) = foldl splice_star ?a ds @ CHR ''*'' # drop d s"
    by (rule foldl_splice_Cons [OF Cons.prems(2) d])
  have "length (cleaned (foldl splice_star ?a ds)) = d"
    using cleaned_foldl_splice [of ?a ds] cleaned_id [OF clean_a] la by simp
  then show ?case
    unfolding eq collect_loop_append using IH clean_b
    by (simp add: collect_loop_no_star)
qed

lemma strip_reinsert:
  assumes "\<forall>c\<in>set s. \<not> is_space c \<and> c \<noteq> CHR ''*''" "sorted ps" "\<forall>p\<in>set ps. p \<le> length s"
  shows "cleaned (reinsertStars s ps) = s" "collectStarIndices (reinsertStars s ps) = ps"
proof -
  have f: "filter (\<lambda>n. n \<le> length s) ps = ps" using assms(3) by simp
  have srt: "sort ps = ps" using assms(2) by (simp add: sorted_sort_id)
  show "cleaned (reinsertStars s ps) = s"
    using assms(1) by (simp add: reinsertStars_def cleaned_foldl_splice cleaned_id)
  show "collectStarIndices (reinsertStars s ps) = ps"
  proof (cases "ps = []")
    case True
    have "CHR ''*'' \<notin> set s" using assms(1) by blast
    then show ?thesis using True
      by (simp add: reinsertStars_def collectStarIndices_def collect_loop_no_star)
  next
    case False
    then show ?thesis
      using collect_foldl_splice [of s "rev ps"] assms
      by (simp add: reinsertStars_def collectStarIndices_def f srt)
  qed
qed

lemma foldl_splice_star_at:
  "sorted (rev ds) \<Longrightarrow> \<forall>d\<in>set ds. d \<le> length s \<Longrightarrow> j < length ds
    \<Longrightarrow> foldl splice_star s ds ! (ds ! j + (length ds - 1 - j)) = CHR ''*''"
proof (induction ds arbitrary: s j)
  case Nil
  then show ?case by simp
next
  case (Cons d ds)
  let ?a = "take d s"
  have d: "d \<le> length s" using Cons.prems by simp
  have le: "\<forall>e\<in>set ds. e \<le> d" using Cons.prems(1) by (auto simp: sorted_append)
  have la: "length ?a = d" using d by simp
  have eq: "foldl splice_star s (d # ds) = foldl splice_star ?a ds @ CHR ''*'' # drop d s"
    by (rule foldl_splice_Cons [OF Cons.prems(1) d])
  have len: "length (foldl splice_star ?a ds) = d + length ds"
    using la by (simp add: length_foldl_splice)
  show ?case
  proof (cases j)
    case 0
    then show ?thesis unfolding eq using len by (simp add: nth_append)
  next
    case (Suc k)
    then have k: "k < length ds" using Cons.prems(3) by simp
    have IH: "foldl splice_star ?a ds ! (ds ! k + (length ds - 1 - k)) = CHR ''*''"
    proof (rule Cons.IH)
      show "sorted (rev ds)" using Cons.prems(1) by (simp add: sorted_append)
      show "\<forall>e\<in>set ds. e \<le> length ?a" using le la by simp
      show "k < length ds" by (rule k)
    qed
    have "ds ! k \<le> d" using le k by simp
    then have lt: "ds ! k + (length ds - 1 - k) < length (foldl splice_star ?a ds)"
      using len k by simp
    have "(d # ds) ! j + (length (d # ds) - 1 - j) = ds ! k + (length ds - 1 - k)"
      using Suc by simp
    then show ?thesis unfolding eq using lt IH by (simp add: nth_append)
  qed
qed

lemma reinsertStars_star_at:
  assumes "sorted ps" "\<forall>p\<in>set ps. p \<le> length s" "i < length ps"
  shows "reinsertStars s ps ! (ps ! i + i) = CHR ''*''"
proof -
  have ne: "ps \<noteq> []" using assms(3) by auto
  have f: "filter (\<lambda>n. n \<le> length s) ps = ps" using assms(2) by simp
  have srt: "sort ps = ps" using assms(1) by (simp add: sorted_sort_id)
  let ?j = "length ps - 1 - i"
  have j: "?j < length (rev ps)" using assms(3) by simp
  have "foldl splice_star s (rev ps) ! (rev ps ! ?j + (length (rev ps) - 1 - ?j)) = CHR ''*''"
  proof (rule foldl_splice_star_at)
    show "sorted (rev (rev ps))" using assms(1) by simp
    show "\<forall>d\<in>set (rev ps). d \<le> length s" using assms(2) by simp
    show "?j < length (rev ps)" by (rule j)
  qed
  moreover have "rev ps ! ?j = ps ! i" using assms(3) by (simp add: rev_nth)
  moreover have "length (rev ps) - 1 - ?j = i" using assms(3) by simp
  ultimately show ?thesis using ne by (simp add: reinsertStars_def f srt)
qed

lemma reinsertStars_Nil: "reinsertStars s [] = s"
  by (simp add: reinsertStars_def)

lemma reinsertStars_filter:
  "reinsertStars s ps = reinsertStars s (filter (\<lambda>n. n \<le> length s) ps)"
  by (simp add: reinsertStars_def)

text \<open>
  Claim C6, as stated, at the string \<open>a b\<close> and the offset 1: the space that the string
  holds is removed when the masked string is stripped, so the string does not come back.
\<close>

theorem mask_round_trip_counterexample:
  "reinsertStars ''a b'' [1] = ''a* b''
   \<and> (cleaned (reinsertStars ''a b'' [1]), collectStarIndices (reinsertStars ''a b'' [1])) = (''ab'', [1])
   \<and> (cleaned (reinsertStars ''a b'' [1]), collectStarIndices (reinsertStars ''a b'' [1])) \<noteq> (''a b'', [1])"
  by (simp add: reinsertStars_def splice_star_def cleaned_def is_space_def collectStarIndices_def)

text \<open>
  Claim C6, amended. For every string \<open>S\<close> that holds no mask and no whitespace character
  and every ascending list \<open>P\<close> of offsets into \<open>S\<close> (each at most the length of \<open>S\<close>),
  stripping the result of reinserting the mask at \<open>P\<close> gives back \<open>S\<close> and \<open>P\<close>, and the
  star of the \<open>i\<close>-th offset stands at index \<open>P ! i + i\<close>: the positions are processed from
  the highest to the lowest, so no insertion shifts an earlier offset. For every string and
  every list of offsets, the offsets beyond the length of the string are dropped, and
  reinserting no offsets is the identity.
\<close>

theorem mask_round_trip:
  "((\<forall>c\<in>set S. \<not> is_space c \<and> c \<noteq> CHR ''*'') \<and> sorted P \<and> (\<forall>p\<in>set P. p \<le> length S) \<longrightarrow>
      cleaned (reinsertStars S P) = S \<and> collectStarIndices (reinsertStars S P) = P
      \<and> (\<forall>i<length P. reinsertStars S P ! (P ! i + i) = CHR ''*''))
   \<and> reinsertStars T Q = reinsertStars T (filter (\<lambda>n. n \<le> length T) Q)
   \<and> reinsertStars T [] = T"
proof (intro conjI impI)
  assume a: "(\<forall>c\<in>set S. \<not> is_space c \<and> c \<noteq> CHR ''*'') \<and> sorted P \<and> (\<forall>p\<in>set P. p \<le> length S)"
  then have c: "\<forall>c\<in>set S. \<not> is_space c \<and> c \<noteq> CHR ''*''" and s: "sorted P"
    and v: "\<forall>p\<in>set P. p \<le> length S"
    by simp_all
  show "cleaned (reinsertStars S P) = S" by (rule strip_reinsert(1) [OF c s v])
  show "collectStarIndices (reinsertStars S P) = P" by (rule strip_reinsert(2) [OF c s v])
  show "\<forall>i<length P. reinsertStars S P ! (P ! i + i) = CHR ''*''"
  proof (intro allI impI)
    fix i
    assume "i < length P"
    then show "reinsertStars S P ! (P ! i + i) = CHR ''*''"
      by (rule reinsertStars_star_at [OF s v])
  qed
next
  show "reinsertStars T Q = reinsertStars T (filter (\<lambda>n. n \<le> length T) Q)"
    by (rule reinsertStars_filter)
  show "reinsertStars T [] = T" by (rule reinsertStars_Nil)
qed

theorem mask_round_trip_witness:
  "cleaned (reinsertStars ''abcd'' [1, 3]) = ''abcd''
   \<and> collectStarIndices (reinsertStars ''abcd'' [1, 3]) = [1, 3]
   \<and> reinsertStars ''abcd'' [1, 3] ! 1 = CHR ''*'' \<and> reinsertStars ''abcd'' [1, 3] ! 4 = CHR ''*''
   \<and> reinsertStars ''ab'' [1, 7] = reinsertStars ''ab'' [1]
   \<and> reinsertStars ''ab'' [] = ''ab''"
proof -
  note r = mask_round_trip [of "''abcd''" "[1, 3]" "''ab''" "[1, 7]"]
  have h: "(\<forall>c\<in>set ''abcd''. \<not> is_space c \<and> c \<noteq> CHR ''*'') \<and> sorted [1, 3 :: nat]
      \<and> (\<forall>p\<in>set [1, 3 :: nat]. p \<le> length ''abcd'')"
    by (simp add: is_space_def)
  have A: "cleaned (reinsertStars ''abcd'' [1, 3]) = ''abcd''
      \<and> collectStarIndices (reinsertStars ''abcd'' [1, 3]) = [1, 3]
      \<and> (\<forall>i<length [1, 3 :: nat]. reinsertStars ''abcd'' [1, 3] ! ([1, 3] ! i + i) = CHR ''*'')"
    by (rule mp [OF conjunct1 [OF r] h])
  have B: "reinsertStars ''ab'' [1, 7] = reinsertStars ''ab'' (filter (\<lambda>n. n \<le> length ''ab'') [1, 7])
      \<and> reinsertStars ''ab'' [] = ''ab''"
    by (rule conjunct2 [OF r])
  have s: "\<forall>i<length [1, 3 :: nat]. reinsertStars ''abcd'' [1, 3] ! ([1, 3] ! i + i) = CHR ''*''"
    using A by (elim conjE)
  have s0: "reinsertStars ''abcd'' [1, 3] ! ([1, 3] ! 0 + 0) = CHR ''*''"
    by (rule mp [OF spec [OF s, of 0]]) simp
  have s1: "reinsertStars ''abcd'' [1, 3] ! ([1, 3] ! 1 + 1) = CHR ''*''"
    by (rule mp [OF spec [OF s, of 1]]) simp
  have "reinsertStars ''abcd'' [1, 3] ! 1 = CHR ''*''" using s0 by simp
  moreover have "reinsertStars ''abcd'' [1, 3] ! 4 = CHR ''*''" using s1 by simp
  moreover have "reinsertStars ''ab'' [1, 7] = reinsertStars ''ab'' [1]" using conjunct1 [OF B] by simp
  ultimately show ?thesis using conjunct1 [OF A] conjunct1 [OF conjunct2 [OF A]] conjunct2 [OF B]
    by (intro conjI)
qed

section \<open>Properties of the block scanner\<close>

declare scan_loop.simps [simp del]

lemma quote_not_payload: "is_quote q \<Longrightarrow> \<not> payload_char q"
  by (auto simp: is_quote_def payload_char_def is_upper_def is_lower_def is_digit_def is_space_def)

text \<open>
  What the block pattern matches at a position: a quote, at least 64 characters of the
  class, and the same quote again.
\<close>

lemma rx_block_at_iff:
  "rx_block_at s = Some (q, inner, post) \<longleftrightarrow>
     is_quote q \<and> s = q # inner @ q # post \<and> 64 \<le> length inner \<and> (\<forall>c\<in>set inner. payload_char c)"
proof
  assume a: "rx_block_at s = Some (q, inner, post)"
  then obtain t where s: "s = q # t" and q: "is_quote q"
    by (auto simp: rx_block_at_def split: list.splits if_splits)
  let ?run = "takeWhile payload_char t"
  let ?ns = "filter (\<lambda>n. n < length t \<and> t ! n = q) (rev [64 ..< Suc (length ?run)])"
  from a s q obtain n ns where ns: "?ns = n # ns" and i: "inner = take n t" and p: "post = drop (Suc n) t"
    by (auto simp: rx_block_at_def split: list.splits)
  have "n \<in> set ?ns" using ns by simp
  then have n: "n < length t" "t ! n = q" "64 \<le> n" "n \<le> length ?run" by auto
  have "take n t = take n ?run"
    using n(4) by (metis append_eq_conv_conj takeWhile_dropWhile_id take_all_iff take_append take_take min.absorb1)
  then have "set inner \<subseteq> set ?run" using i by (metis set_take_subset)
  then have P: "\<forall>c\<in>set inner. payload_char c" by (meson set_takeWhileD subsetD)
  have t: "t = inner @ q # post" using id_take_nth_drop [OF n(1)] n(2) i p by simp
  have len: "64 \<le> length inner" using i n(1) n(3) by simp
  have s': "s = q # inner @ q # post" using s t by blast
  show "is_quote q \<and> s = q # inner @ q # post \<and> 64 \<le> length inner \<and> (\<forall>c\<in>set inner. payload_char c)"
    using q s' len P by blast
next
  assume a: "is_quote q \<and> s = q # inner @ q # post \<and> 64 \<le> length inner \<and> (\<forall>c\<in>set inner. payload_char c)"
  let ?t = "inner @ q # post"
  have run: "takeWhile payload_char ?t = inner"
    using a quote_not_payload by (simp add: takeWhile_append2)
  have "rev [64 ..< Suc (length inner)] = length inner # rev [64 ..< length inner]"
    using a by simp
  then have "filter (\<lambda>n. n < length ?t \<and> ?t ! n = q) (rev [64 ..< Suc (length inner)])
      = length inner # filter (\<lambda>n. n < length ?t \<and> ?t ! n = q) (rev [64 ..< length inner])"
    by simp
  then show "rx_block_at s = Some (q, inner, post)"
    using a run unfolding rx_block_at_def by simp
qed

lemma scan_loop_Nil: "scan_loop L h pos idx [] = []"
  by (simp add: scan_loop.simps)

lemma scan_loop_None:
  "rx_block_at (c # t) = None \<Longrightarrow> scan_loop L h pos idx (c # t) = scan_loop L h (pos + 1) idx t"
  by (simp add: scan_loop.simps)

lemma scan_loop_Some:
  "rx_block_at (c # t) = Some (q, inner, post) \<Longrightarrow>
   scan_loop L h pos idx (c # t) =
     mk_block L h idx pos q inner # scan_loop L h (pos + length inner + 2) (idx + 1) post"
  by (simp add: scan_loop.simps)

lemma mk_block_fields:
  "index (mk_block L h idx pos q inner) = idx"
  "quote (mk_block L h idx pos q inner) = q"
  "innerStart (mk_block L h idx pos q inner) = pos + 1"
  "innerEnd (mk_block L h idx pos q inner) = pos + 1 + length inner"
  "original (mk_block L h idx pos q inner) = inner"
  "cleanedB64 (mk_block L h idx pos q inner) = cleaned inner"
  "starsAt (mk_block L h idx pos q inner) = collectStarIndices inner"
  by (simp_all add: mk_block_def Let_def)

text \<open>Every block of a scan was made at a literal of the text, at its position.\<close>

lemma scan_loop_set:
  "b \<in> set (scan_loop L h pos idx s) \<Longrightarrow>
     \<exists>pre q inner post idx'. b = mk_block L h idx' (pos + length pre) q inner
        \<and> s = pre @ q # inner @ q # post \<and> is_quote q \<and> 64 \<le> length inner
        \<and> (\<forall>c\<in>set inner. payload_char c)"
proof (induction L h pos idx s rule: scan_loop.induct)
  case (1 L h pos idx s)
  show ?case
  proof (cases s)
    case Nil
    with "1.prems" show ?thesis by (simp add: scan_loop_Nil)
  next
    case (Cons c t)
    show ?thesis
    proof (cases "rx_block_at s")
      case None
      then have "b \<in> set (scan_loop L h (pos + 1) idx t)"
        using "1.prems" Cons by (simp add: scan_loop_None)
      then obtain pre q inner post idx' where
          "b = mk_block L h idx' (pos + 1 + length pre) q inner"
          "t = pre @ q # inner @ q # post" "is_quote q" "64 \<le> length inner"
          "\<forall>c\<in>set inner. payload_char c"
        using "1.IH"(1) [OF Cons None] by blast
      then have "b = mk_block L h idx' (pos + length (c # pre)) q inner
          \<and> s = (c # pre) @ q # inner @ q # post \<and> is_quote q \<and> 64 \<le> length inner
          \<and> (\<forall>c\<in>set inner. payload_char c)"
        using Cons by simp
      then show ?thesis by blast
    next
      case (Some r)
      obtain q inner post where r: "r = (q, inner, post)" by (cases r) auto
      have m: "rx_block_at (c # t) = Some (q, inner, post)" using Some r Cons by simp
      have lit: "is_quote q" "s = q # inner @ q # post" "64 \<le> length inner"
          "\<forall>c\<in>set inner. payload_char c"
        using m Cons by (simp_all add: rx_block_at_iff)
      from "1.prems" have "b = mk_block L h idx pos q inner
          \<or> b \<in> set (scan_loop L h (pos + length inner + 2) (idx + 1) post)"
        using Cons m by (simp add: scan_loop_Some)
      then show ?thesis
      proof
        assume "b = mk_block L h idx pos q inner"
        then have "b = mk_block L h idx (pos + length ([]::string)) q inner
            \<and> s = [] @ q # inner @ q # post \<and> is_quote q \<and> 64 \<le> length inner
            \<and> (\<forall>c\<in>set inner. payload_char c)"
          using lit by simp
        then show ?thesis by blast
      next
        assume "b \<in> set (scan_loop L h (pos + length inner + 2) (idx + 1) post)"
        then obtain pre q' inner' post' idx' where
            "b = mk_block L h idx' (pos + length inner + 2 + length pre) q' inner'"
            "post = pre @ q' # inner' @ q' # post'" "is_quote q'" "64 \<le> length inner'"
            "\<forall>c\<in>set inner'. payload_char c"
          using "1.IH"(2) [OF Cons Some [unfolded r] refl refl] by blast
        then have "b = mk_block L h idx' (pos + length (q # inner @ q # pre)) q' inner'
            \<and> s = (q # inner @ q # pre) @ q' # inner' @ q' # post' \<and> is_quote q' \<and> 64 \<le> length inner'
            \<and> (\<forall>c\<in>set inner'. payload_char c)"
          using lit(2) by (simp add: add.assoc)
        then show ?thesis by blast
      qed
    qed
  qed
qed

lemma scan_loop_lower: "b \<in> set (scan_loop L h pos idx s) \<Longrightarrow> pos < innerStart b"
  using scan_loop_set [of b L h pos idx s] by (auto simp: mk_block_fields)

lemma scan_loop_sorted: "sorted_wrt (<) (map innerStart (scan_loop L h pos idx s))"
proof (induction L h pos idx s rule: scan_loop.induct)
  case (1 L h pos idx s)
  show ?case
  proof (cases s)
    case Nil
    then show ?thesis by (simp add: scan_loop_Nil)
  next
    case (Cons c t)
    show ?thesis
    proof (cases "rx_block_at s")
      case None
      then show ?thesis using "1.IH"(1) [OF Cons None] Cons by (simp add: scan_loop_None)
    next
      case (Some r)
      obtain q inner post where r: "r = (q, inner, post)" by (cases r) auto
      have m: "rx_block_at (c # t) = Some (q, inner, post)" using Some r Cons by simp
      have "\<forall>b\<in>set (scan_loop L h (pos + length inner + 2) (idx + 1) post). pos + 1 < innerStart b"
        using scan_loop_lower [of _ L h "pos + length inner + 2" "idx + 1" post] by fastforce
      then show ?thesis
        using "1.IH"(2) [OF Cons Some [unfolded r] refl refl] Cons m
        by (simp add: scan_loop_Some mk_block_fields)
    qed
  qed
qed

lemma scan_loop_index:
  "map index (scan_loop L h pos idx s) = [idx ..< idx + length (scan_loop L h pos idx s)]"
proof (induction L h pos idx s rule: scan_loop.induct)
  case (1 L h pos idx s)
  show ?case
  proof (cases s)
    case Nil
    then show ?thesis by (simp add: scan_loop_Nil)
  next
    case (Cons c t)
    show ?thesis
    proof (cases "rx_block_at s")
      case None
      then show ?thesis using "1.IH"(1) [OF Cons None] Cons by (simp add: scan_loop_None)
    next
      case (Some r)
      obtain q inner post where r: "r = (q, inner, post)" by (cases r) auto
      have m: "rx_block_at (c # t) = Some (q, inner, post)" using Some r Cons by simp
      let ?rest = "scan_loop L h (pos + length inner + 2) (idx + 1) post"
      have "map index ?rest = [idx + 1 ..< idx + 1 + length ?rest]"
        using "1.IH"(2) [OF Cons Some [unfolded r] refl refl] .
      then have "map index (mk_block L h idx pos q inner # ?rest) = idx # [Suc idx ..< Suc idx + length ?rest]"
        by (simp add: mk_block_fields del: upt_Suc)
      also have "\<dots> = [idx ..< idx + length (mk_block L h idx pos q inner # ?rest)]"
        by (simp add: upt_conv_Cons del: upt_Suc)
      finally show ?thesis using Cons m by (simp add: scan_loop_Some)
    qed
  qed
qed

lemma parseBlocks_single:
  assumes "is_quote q" "64 \<le> length inner" "\<forall>c\<in>set inner. payload_char c"
  shows "parseBlocks L h (q # inner @ [q]) = [mk_block L h 0 0 q inner]"
proof -
  have "rx_block_at (q # inner @ [q]) = Some (q, inner, [])"
    using assms by (simp add: rx_block_at_iff)
  then show ?thesis by (simp add: parseBlocks_def scan_loop_Some scan_loop_Nil)
qed

lemma reinsert_collect_fold:
  "\<forall>c\<in>set s. \<not> is_space c \<Longrightarrow>
   foldl splice_star (cleaned s) (rev (collect_loop s 0 [])) = s"
proof (induction s rule: rev_induct)
  case Nil
  show ?case by (simp add: cleaned_def)
next
  case (snoc c s)
  let ?A = "cleaned s" and ?ds = "rev (collect_loop s 0 [])"
  have IH: "foldl splice_star ?A ?ds = s" using snoc by simp
  have le: "\<forall>d\<in>set ?ds. d \<le> length ?A" using collect_loop_bounds [of _ s 0] by auto
  have nsp: "\<not> is_space c" using snoc.prems by simp
  show ?case
  proof (cases "c = CHR ''*''")
    case True
    have c1: "cleaned (s @ [c]) = ?A" using True by (simp add: cleaned_def)
    have c2: "collect_loop (s @ [c]) 0 [] = collect_loop s 0 [] @ [length ?A]"
      using True by (simp add: collect_loop_append)
    have "foldl splice_star ?A (length ?A # ?ds) = foldl splice_star (?A @ [CHR ''*'']) ?ds"
      by (simp add: splice_star_def)
    also have "\<dots> = foldl splice_star ?A ?ds @ [CHR ''*'']"
      using foldl_splice_append [OF le] by simp
    finally have "foldl splice_star ?A (length ?A # ?ds) = s @ [c]" using IH True by simp
    then show ?thesis unfolding c1 c2 by simp
  next
    case False
    have c1: "cleaned (s @ [c]) = ?A @ [c]" using False nsp by (simp add: cleaned_def)
    have c2: "collect_loop (s @ [c]) 0 [] = collect_loop s 0 []"
      using False nsp by (simp add: collect_loop_append)
    show ?thesis unfolding c1 c2 using foldl_splice_append [OF le, of "[c]"] IH by simp
  qed
qed

lemma reinsert_collect:
  assumes "\<forall>c\<in>set s. \<not> is_space c"
  shows "reinsertStars (cleaned s) (collectStarIndices s) = s"
proof (cases "collectStarIndices s = []")
  case True
  then have "foldl splice_star (cleaned s) [] = s"
    using reinsert_collect_fold [OF assms] by (simp add: collectStarIndices_def)
  then show ?thesis using True by (simp add: reinsertStars_def)
next
  case False
  have "filter (\<lambda>n. n \<le> length (cleaned s)) (collectStarIndices s) = collectStarIndices s"
    using collect_loop_bounds [of _ s 0] by (simp add: collectStarIndices_def)
  moreover have "sort (collectStarIndices s) = collectStarIndices s"
    by (simp add: collectStarIndices_def sorted_collect_loop sorted_sort_id)
  ultimately show ?thesis
    using False reinsert_collect_fold [OF assms] by (simp add: reinsertStars_def collectStarIndices_def)
qed

lemma payload_inner_spaced: "64 \<le> length inner_spaced \<and> (\<forall>c\<in>set inner_spaced. payload_char c)"
  by (simp add: inner_spaced_def payload_char_def is_upper_def is_space_def)

text \<open>
  Claim C1, as stated, at a host text whose one block holds a space: the scanner finds the
  block, and splicing back its own mask-stripped string with the mask reapplied loses the
  space, so the host text is not reproduced.
\<close>

theorem export_unedited_counterexample:
  "parseBlocks sample_lib WAVY_HINTS host_spaced = [mk_block sample_lib WAVY_HINTS 0 0 (CHR 0x22) inner_spaced]
   \<and> newContent host_spaced (mk_block sample_lib WAVY_HINTS 0 0 (CHR 0x22) inner_spaced)
        (cleanedB64 (mk_block sample_lib WAVY_HINTS 0 0 (CHR 0x22) inner_spaced))
      = CHR 0x22 # replicate 64 (CHR ''A'') @ [CHR 0x22]
   \<and> CHR 0x22 # replicate 64 (CHR ''A'') @ [CHR 0x22] \<noteq> host_spaced"
proof (intro conjI)
  show "parseBlocks sample_lib WAVY_HINTS host_spaced = [mk_block sample_lib WAVY_HINTS 0 0 (CHR 0x22) inner_spaced]"
    unfolding host_spaced_def using payload_inner_spaced
    by (intro parseBlocks_single) (simp_all add: is_quote_def)
  have c: "cleaned inner_spaced = replicate 64 (CHR ''A'')"
    by (simp add: inner_spaced_def cleaned_def is_space_def flip: replicate_add)
  have s: "collectStarIndices inner_spaced = []"
    by (simp add: collectStarIndices_def inner_spaced_def collect_loop_append collect_loop_no_star)
  have l: "length inner_spaced = 65" by (simp add: inner_spaced_def)
  show "newContent host_spaced (mk_block sample_lib WAVY_HINTS 0 0 (CHR 0x22) inner_spaced)
        (cleanedB64 (mk_block sample_lib WAVY_HINTS 0 0 (CHR 0x22) inner_spaced))
      = CHR 0x22 # replicate 64 (CHR ''A'') @ [CHR 0x22]"
    by (simp add: newContent_def finalB64_def mk_block_fields c s l host_spaced_def)
  have "length (CHR 0x22 # replicate 64 (CHR ''A'') @ [CHR 0x22]) \<noteq> length host_spaced"
    by (simp add: host_spaced_def l)
  then show "CHR 0x22 # replicate 64 (CHR ''A'') @ [CHR 0x22] \<noteq> host_spaced" by metis
qed

text \<open>
  Whitespace is invisible to the mask: the stripped string and the recorded positions of a
  string are those of the string without its whitespace.
\<close>

lemma collect_loop_skip_space:
  "collect_loop (filter (\<lambda>c. \<not> is_space c) s) n acc = collect_loop s n acc"
proof (induction s arbitrary: n acc)
  case Nil
  show ?case by simp
next
  case (Cons c s)
  have "\<not> is_space (CHR ''*'')" by (simp add: is_space_def)
  then show ?case using Cons.IH by auto
qed

lemma cleaned_skip_space: "cleaned (filter (\<lambda>c. \<not> is_space c) s) = cleaned s"
  by (induction s) (simp_all add: cleaned_def)

lemma reinsert_collect_spaces:
  "reinsertStars (cleaned s) (collectStarIndices s) = filter (\<lambda>c. \<not> is_space c) s"
proof -
  let ?t = "filter (\<lambda>c. \<not> is_space c) s"
  have "reinsertStars (cleaned ?t) (collectStarIndices ?t) = ?t"
    by (rule reinsert_collect) simp
  then show ?thesis
    by (simp add: collectStarIndices_def collect_loop_skip_space cleaned_skip_space)
qed

text \<open>
  Claim C1, amended. For every host text and every block scanned from it, splicing back
  the block's own mask-stripped string with the recorded mask positions reapplied, at
  \<open>[innerStart, innerEnd)\<close>, gives the host text with the whitespace inside the block
  removed: the text before and after the block and every other character of the block,
  the stars included, stay where they are. So the host text is reproduced exactly iff the
  block holds no whitespace.
\<close>

theorem export_unedited:
  assumes "blk \<in> set (parseBlocks L hints content)"
  shows "content = take (innerStart blk) content @ original blk @ drop (innerEnd blk) content
    \<and> newContent content blk (cleanedB64 blk) =
        take (innerStart blk) content @ filter (\<lambda>c. \<not> is_space c) (original blk)
          @ drop (innerEnd blk) content
    \<and> (newContent content blk (cleanedB64 blk) = content \<longleftrightarrow> (\<forall>c\<in>set (original blk). \<not> is_space c))"
proof -
  obtain pre q inner post idx' where b: "blk = mk_block L hints idx' (0 + length pre) q inner"
      and c: "content = pre @ q # inner @ q # post"
    using assms scan_loop_set [of blk L hints 0 0 content] unfolding parseBlocks_def by blast
  have o: "original blk = inner" using b by (simp add: mk_block_fields)
  have "finalB64 blk (cleanedB64 blk) = reinsertStars (cleaned inner) (collectStarIndices inner)"
    using b by (simp add: finalB64_def mk_block_fields reinsertStars_Nil)
  then have f: "finalB64 blk (cleanedB64 blk) = filter (\<lambda>c. \<not> is_space c) inner"
    by (simp add: reinsert_collect_spaces)
  have t: "take (innerStart blk) content = pre @ [q]" using b c by (simp add: mk_block_fields)
  have d: "drop (innerEnd blk) content = q # post" using b c by (simp add: mk_block_fields)
  have 1: "content = take (innerStart blk) content @ original blk @ drop (innerEnd blk) content"
    unfolding t d o using c by simp
  have 2: "newContent content blk (cleanedB64 blk) =
      take (innerStart blk) content @ filter (\<lambda>c. \<not> is_space c) (original blk)
        @ drop (innerEnd blk) content"
    unfolding newContent_def f o ..
  have "newContent content blk (cleanedB64 blk) = content \<longleftrightarrow>
      filter (\<lambda>c. \<not> is_space c) inner = inner"
    unfolding newContent_def f t d using c by simp
  then have 3: "newContent content blk (cleanedB64 blk) = content \<longleftrightarrow> (\<forall>c\<in>set (original blk). \<not> is_space c)"
    unfolding o by (simp add: filter_id_conv)
  show ?thesis using 1 2 3 by (intro conjI)
qed

theorem export_unedited_witness:
  "mk_block sample_lib WAVY_HINTS 0 0 (CHR 0x22) inner_wrapped \<in> set (parseBlocks sample_lib WAVY_HINTS host_wrapped)
   \<and> starsAt (mk_block sample_lib WAVY_HINTS 0 0 (CHR 0x22) inner_wrapped) = [48]
   \<and> newContent host_wrapped (mk_block sample_lib WAVY_HINTS 0 0 (CHR 0x22) inner_wrapped)
        (cleanedB64 (mk_block sample_lib WAVY_HINTS 0 0 (CHR 0x22) inner_wrapped))
      = CHR 0x22 # replicate 48 (CHR ''A'') @ ''*'' @ replicate 16 (CHR ''A'') @ [CHR 0x22]
   \<and> mk_block sample_lib WAVY_HINTS 0 0 (CHR 0x22) inner_starred \<in> set (parseBlocks sample_lib WAVY_HINTS host_starred)
   \<and> newContent host_starred (mk_block sample_lib WAVY_HINTS 0 0 (CHR 0x22) inner_starred)
        (cleanedB64 (mk_block sample_lib WAVY_HINTS 0 0 (CHR 0x22) inner_starred)) = host_starred"
proof -
  let ?wr = "mk_block sample_lib WAVY_HINTS 0 0 (CHR 0x22) inner_wrapped"
  let ?st = "mk_block sample_lib WAVY_HINTS 0 0 (CHR 0x22) inner_starred"
  have pw: "64 \<le> length inner_wrapped \<and> (\<forall>c\<in>set inner_wrapped. payload_char c)"
    by (simp add: inner_wrapped_def payload_char_def is_upper_def is_space_def)
  have "parseBlocks sample_lib WAVY_HINTS host_wrapped = [?wr]"
    unfolding host_wrapped_def using pw by (intro parseBlocks_single) (simp_all add: is_quote_def)
  then have mw: "?wr \<in> set (parseBlocks sample_lib WAVY_HINTS host_wrapped)" by simp
  have "collectStarIndices inner_wrapped = [48]" by code_simp
  then have sw: "starsAt ?wr = [48]" by (simp add: mk_block_fields)
  have fw: "filter (\<lambda>c. \<not> is_space c) inner_wrapped = replicate 48 (CHR ''A'') @ ''*'' @ replicate 16 (CHR ''A'')"
    by (simp add: inner_wrapped_def is_space_def)
  have lw: "length inner_wrapped = 66" by (simp add: inner_wrapped_def)
  have "newContent host_wrapped ?wr (cleanedB64 ?wr) =
      take (innerStart ?wr) host_wrapped @ filter (\<lambda>c. \<not> is_space c) (original ?wr)
        @ drop (innerEnd ?wr) host_wrapped"
    by (rule conjunct1 [OF conjunct2 [OF export_unedited [OF mw]]])
  then have nw: "newContent host_wrapped ?wr (cleanedB64 ?wr)
      = CHR 0x22 # replicate 48 (CHR ''A'') @ ''*'' @ replicate 16 (CHR ''A'') @ [CHR 0x22]"
    by (simp add: mk_block_fields fw lw host_wrapped_def)
  have ps: "64 \<le> length inner_starred \<and> (\<forall>c\<in>set inner_starred. payload_char c)"
    by (simp add: inner_starred_def payload_char_def is_upper_def)
  have "parseBlocks sample_lib WAVY_HINTS host_starred = [?st]"
    unfolding host_starred_def using ps by (intro parseBlocks_single) (simp_all add: is_quote_def)
  then have ms: "?st \<in> set (parseBlocks sample_lib WAVY_HINTS host_starred)" by simp
  have ws: "\<forall>c\<in>set (original ?st). \<not> is_space c"
    by (simp add: mk_block_fields inner_starred_def is_space_def)
  have ns: "newContent host_starred ?st (cleanedB64 ?st) = host_starred"
    by (rule iffD2 [OF conjunct2 [OF conjunct2 [OF export_unedited [OF ms]]] ws])
  show ?thesis using mw sw nw ms ns by (intro conjI)
qed

section \<open>Exactness of the scanner\<close>

lemma rx_block_at_not_quote: "\<not> is_quote c \<Longrightarrow> rx_block_at (c # t) = None"
  by (simp add: rx_block_at_def)

lemma scan_loop_gap:
  "list_all (\<lambda>c. \<not> is_quote c) g \<Longrightarrow>
   scan_loop L h pos idx (g @ r) = scan_loop L h (pos + length g) idx r"
proof (induction g arbitrary: pos)
  case Nil
  show ?case by simp
next
  case (Cons c g)
  then have "rx_block_at (c # g @ r) = None" by (simp add: rx_block_at_not_quote)
  then have "scan_loop L h pos idx ((c # g) @ r) = scan_loop L h (pos + 1) idx (g @ r)"
    by (simp add: scan_loop_None)
  also have "\<dots> = scan_loop L h (pos + 1 + length g) idx r"
    using Cons.IH [of "pos + 1"] Cons.prems by simp
  finally show ?case by simp
qed

lemma first_occurrence:
  "q \<notin> set a \<Longrightarrow> q \<notin> set b \<Longrightarrow> a @ q # x = b @ q # y \<Longrightarrow> a = b"
proof (induction a arbitrary: b)
  case Nil
  then show ?case by (cases b) auto
next
  case (Cons c a)
  then show ?case by (cases b) auto
qed

lemma rx_block_at_decoy:
  assumes "list_all (\<lambda>c. \<not> is_quote c) d" "length d < 64" "is_quote q"
  shows "rx_block_at (q # d @ q # r) = None"
proof (cases "rx_block_at (q # d @ q # r)")
  case None
  then show ?thesis .
next
  case (Some m)
  obtain q' inner post where m: "m = (q', inner, post)" by (cases m) auto
  from Some m have "rx_block_at (q # d @ q # r) = Some (q', inner, post)" by simp
  then have "is_quote q' \<and> q # d @ q # r = q' # inner @ q' # post \<and> 64 \<le> length inner
      \<and> (\<forall>c\<in>set inner. payload_char c)"
    by (rule iffD1 [OF rx_block_at_iff])
  then have f: "is_quote q'" "q # d @ q # r = q' # inner @ q' # post" "64 \<le> length inner"
      "\<forall>c\<in>set inner. payload_char c"
    by blast+
  have qq: "q' = q" using f(2) by simp
  have n1: "q \<notin> set d" using assms(1,3) by (auto simp: list_all_iff)
  have n2: "q \<notin> set inner" using f(4) quote_not_payload [OF assms(3)] by blast
  have "d @ q # r = inner @ q # post" using f(2) unfolding qq by simp
  then have "d = inner" by (rule first_occurrence [OF n1 n2])
  then show ?thesis using assms(2) f(3) by simp
qed

lemma rx_block_at_closing:
  assumes "case r of [] \<Rightarrow> True | c # _ \<Rightarrow> \<not> payload_char c"
  shows "rx_block_at (q # r) = None"
proof (cases "rx_block_at (q # r)")
  case None
  then show ?thesis .
next
  case (Some m)
  obtain q' inner post where m: "m = (q', inner, post)" by (cases m) auto
  from Some m have "rx_block_at (q # r) = Some (q', inner, post)" by simp
  then have "is_quote q' \<and> q # r = q' # inner @ q' # post \<and> 64 \<le> length inner
      \<and> (\<forall>c\<in>set inner. payload_char c)"
    by (rule iffD1 [OF rx_block_at_iff])
  then have f: "q # r = q' # inner @ q' # post" "64 \<le> length inner" "\<forall>c\<in>set inner. payload_char c"
    by blast+
  obtain c inner' where i: "inner = c # inner'" using f(2) by (cases inner) auto
  then have "r = c # inner' @ q' # post" "payload_char c" using f by simp_all
  then show ?thesis using assms by simp
qed

text \<open>
  A run of class characters between two short literals: the scan takes it for a block,
  from the closing quote of the first literal to the opening quote of the second.
\<close>

lemma scan_loop_between:
  assumes "is_quote q" "list_all (\<lambda>c. \<not> is_quote c) d" "length d < 64"
    "list_all (\<lambda>c. \<not> is_quote c) e" "64 \<le> length a" "\<forall>c\<in>set a. payload_char c"
  shows "scan_loop L h pos idx (q # d @ q # a @ q # e @ [q]) = [mk_block L h idx (pos + length d + 1) q a]"
proof -
  have "rx_block_at (q # d @ q # (a @ q # e @ [q])) = None"
    by (rule rx_block_at_decoy [OF assms(2) assms(3) assms(1)])
  then have "scan_loop L h pos idx (q # d @ q # a @ q # e @ [q])
      = scan_loop L h (pos + 1) idx (d @ q # a @ q # e @ [q])"
    by (simp add: scan_loop_None)
  also have "\<dots> = scan_loop L h (pos + 1 + length d) idx (q # a @ q # e @ [q])"
    by (rule scan_loop_gap [OF assms(2)])
  also have "\<dots> = mk_block L h idx (pos + 1 + length d) q a
      # scan_loop L h (pos + 1 + length d + length a + 2) (idx + 1) (e @ [q])"
  proof -
    have "rx_block_at (q # a @ q # (e @ [q])) = Some (q, a, e @ [q])"
      using assms(1,5,6) by (simp add: rx_block_at_iff)
    then show ?thesis by (simp add: scan_loop_Some)
  qed
  also have "scan_loop L h (pos + 1 + length d + length a + 2) (idx + 1) (e @ [q])
      = scan_loop L h (pos + 1 + length d + length a + 2 + length e) (idx + 1) [q]"
    by (rule scan_loop_gap [OF assms(4)])
  also have "\<dots> = []"
  proof -
    have "rx_block_at [q] = None" by (rule rx_block_at_closing) simp
    then show ?thesis by (simp add: scan_loop_None scan_loop_Nil)
  qed
  finally show ?thesis by (simp add: add.commute add.left_commute)
qed

text \<open>
  Every block of a scan lies at a position where the pattern matches, and it is the match
  there.
\<close>

lemma scan_loop_match:
  assumes "b \<in> set (scan_loop L h pos idx s)"
  shows "pos < innerStart b \<and> innerStart b - 1 - pos < length s
    \<and> innerEnd b = innerStart b + length (original b)
    \<and> rx_block_at (drop (innerStart b - 1 - pos) s)
        = Some (quote b, original b, drop (innerEnd b + 1 - pos) s)"
proof -
  obtain pre q inner post idx' where b: "b = mk_block L h idx' (pos + length pre) q inner"
      and s: "s = pre @ q # inner @ q # post" and l: "is_quote q" "64 \<le> length inner"
        "\<forall>c\<in>set inner. payload_char c"
    using scan_loop_set [OF assms] by blast
  have m: "rx_block_at (q # inner @ q # post) = Some (q, inner, post)"
    using l by (simp add: rx_block_at_iff)
  show ?thesis using m by (simp add: b s mk_block_fields)
qed

lemma rx_block_at_payload: "payload_char c \<Longrightarrow> rx_block_at (c # t) = None"
  by (rule rx_block_at_not_quote) (use quote_not_payload in blast)

text \<open>
  A position where the pattern matches is the opening quote of a block of the scan, or the
  closing quote of one.
\<close>

lemma scan_loop_complete:
  "i < length s \<Longrightarrow> rx_block_at (drop i s) \<noteq> None \<Longrightarrow>
   \<exists>b\<in>set (scan_loop L h pos idx s). innerStart b = pos + i + 1 \<or> innerEnd b = pos + i"
proof (induction L h pos idx s arbitrary: i rule: scan_loop.induct)
  case (1 L h pos idx s)
  show ?case
  proof (cases s)
    case Nil
    with "1.prems" show ?thesis by simp
  next
    case (Cons c t)
    show ?thesis
    proof (cases "rx_block_at s")
      case None
      then have "i \<noteq> 0" using "1.prems"(2) by (cases i) auto
      then obtain j where i: "i = Suc j" by (cases i) auto
      have j: "j < length t" "rx_block_at (drop j t) \<noteq> None"
        using "1.prems" Cons i by simp_all
      obtain b where "b \<in> set (scan_loop L h (pos + 1) idx t)"
          "innerStart b = pos + 1 + j + 1 \<or> innerEnd b = pos + 1 + j"
        using "1.IH"(1) [OF Cons None j] by blast
      then have "b \<in> set (scan_loop L h pos idx s) \<and> (innerStart b = pos + i + 1 \<or> innerEnd b = pos + i)"
        using None Cons i by (simp add: scan_loop_None)
      then show ?thesis by blast
    next
      case (Some r)
      obtain q inner post where r: "r = (q, inner, post)" by (cases r) auto
      have m: "rx_block_at (c # t) = Some (q, inner, post)" using Some r Cons by simp
      have lit: "s = q # inner @ q # post" "\<forall>c\<in>set inner. payload_char c"
        using m Cons by (simp_all add: rx_block_at_iff)
      let ?hd = "mk_block L h idx pos q inner"
      let ?rest = "scan_loop L h (pos + length inner + 2) (idx + 1) post"
      have sl: "scan_loop L h pos idx s = ?hd # ?rest"
        using Cons m by (simp add: scan_loop_Some)
      consider "i = 0" | "0 < i" "i \<le> length inner" | "i = length inner + 1" | "length inner + 2 \<le> i"
        by linarith
      then show ?thesis
      proof cases
        case 1
        then have "innerStart ?hd = pos + i + 1" by (simp add: mk_block_fields)
        then show ?thesis unfolding sl by simp
      next
        case 2
        then obtain j where j: "i = Suc j" "j < length inner" by (cases i) auto
        have "drop i s = drop j inner @ q # post" using lit(1) j by simp
        moreover have "drop j inner = inner ! j # drop (Suc j) inner"
          using j(2) by (simp add: Cons_nth_drop_Suc)
        moreover have "payload_char (inner ! j)" using lit(2) j(2) by simp
        ultimately have "rx_block_at (drop i s) = None" by (simp add: rx_block_at_payload)
        then show ?thesis using "1.prems"(2) by simp
      next
        case 3
        then have "innerEnd ?hd = pos + i" by (simp add: mk_block_fields)
        then show ?thesis unfolding sl by simp
      next
        case 4
        then obtain j where j: "i = length inner + 2 + j" using le_Suc_ex by blast
        have d: "drop i s = drop j post" using lit(1) j by simp
        have jl: "j < length post" using "1.prems"(1) lit(1) j by simp
        have jm: "rx_block_at (drop j post) \<noteq> None" using "1.prems"(2) d by simp
        obtain b where "b \<in> set ?rest"
            "innerStart b = pos + length inner + 2 + j + 1 \<or> innerEnd b = pos + length inner + 2 + j"
          using "1.IH"(2) [OF Cons Some [unfolded r] refl refl jl jm] by blast
        then have "b \<in> set (?hd # ?rest) \<and> (innerStart b = pos + i + 1 \<or> innerEnd b = pos + i)"
          using j by (simp add: add.assoc)
        then show ?thesis unfolding sl by blast
      qed
    qed
  qed
qed

text \<open>The matches of a scan do not overlap.\<close>

lemma scan_loop_apart:
  "sorted_wrt (\<lambda>a b. innerEnd a + 2 \<le> innerStart b) (scan_loop L h pos idx s)"
proof (induction L h pos idx s rule: scan_loop.induct)
  case (1 L h pos idx s)
  show ?case
  proof (cases s)
    case Nil
    then show ?thesis by (simp add: scan_loop_Nil)
  next
    case (Cons c t)
    show ?thesis
    proof (cases "rx_block_at s")
      case None
      then show ?thesis using "1.IH"(1) [OF Cons None] Cons by (simp add: scan_loop_None)
    next
      case (Some r)
      obtain q inner post where r: "r = (q, inner, post)" by (cases r) auto
      have m: "rx_block_at (c # t) = Some (q, inner, post)" using Some r Cons by simp
      have "\<forall>b\<in>set (scan_loop L h (pos + length inner + 2) (idx + 1) post).
          innerEnd (mk_block L h idx pos q inner) + 2 \<le> innerStart b"
        using scan_loop_lower [of _ L h "pos + length inner + 2" "idx + 1" post]
        by (fastforce simp: mk_block_fields)
      then show ?thesis
        using "1.IH"(2) [OF Cons Some [unfolded r] refl refl] Cons m
        by (simp add: scan_loop_Some)
    qed
  qed
qed

lemma sorted_wrt_pair:
  "sorted_wrt P xs \<Longrightarrow> a \<in> set xs \<Longrightarrow> b \<in> set xs \<Longrightarrow> a = b \<or> P a b \<or> P b a"
  by (induction xs) auto

lemma parseBlocks_match:
  assumes "b \<in> set (parseBlocks L h content)"
  shows "1 \<le> innerStart b" "innerStart b - 1 < length content"
    "innerEnd b = innerStart b + length (original b)"
    "rx_block_at (drop (innerStart b - 1) content)
       = Some (quote b, original b, drop (innerEnd b + 1) content)"
  using scan_loop_match [OF assms [unfolded parseBlocks_def]] by simp_all

lemma parseBlocks_closing:
  assumes "b \<in> set (parseBlocks L h content)"
  shows "drop (innerEnd b) content = quote b # drop (innerEnd b + 1) content"
proof -
  let ?p = "innerStart b - 1"
  have "drop ?p content = quote b # original b @ quote b # drop (innerEnd b + 1) content"
    using parseBlocks_match(4) [OF assms] by (simp add: rx_block_at_iff)
  then have "drop (length (original b) + 1) (drop ?p content) = quote b # drop (innerEnd b + 1) content"
    by simp
  moreover have "length (original b) + 1 + ?p = innerEnd b"
    using parseBlocks_match(1,3) [OF assms] by simp
  ultimately show ?thesis by (simp only: drop_drop)
qed

text \<open>
  Which matches of the pattern a scan returns: those whose opening quote is not the
  closing quote of a block of the scan.
\<close>

lemma parseBlocks_returned:
  assumes "p < length content"
  shows "(\<exists>b\<in>set (parseBlocks L h content). innerStart b = p + 1) \<longleftrightarrow>
     (rx_block_at (drop p content) \<noteq> None \<and> \<not> (\<exists>b\<in>set (parseBlocks L h content). innerEnd b = p))"
proof
  assume "\<exists>b\<in>set (parseBlocks L h content). innerStart b = p + 1"
  then obtain b where b: "b \<in> set (parseBlocks L h content)" "innerStart b = p + 1" by blast
  have m: "rx_block_at (drop p content) \<noteq> None"
    using parseBlocks_match(4) [OF b(1)] b(2) by simp
  have "\<not> (\<exists>b'\<in>set (parseBlocks L h content). innerEnd b' = p)"
  proof
    assume "\<exists>b'\<in>set (parseBlocks L h content). innerEnd b' = p"
    then obtain b' where b': "b' \<in> set (parseBlocks L h content)" "innerEnd b' = p" by blast
    have "b' = b \<or> innerEnd b' + 2 \<le> innerStart b \<or> innerEnd b + 2 \<le> innerStart b'"
      using sorted_wrt_pair [OF scan_loop_apart b'(1) [unfolded parseBlocks_def] b(1) [unfolded parseBlocks_def]] .
    then show False
      using parseBlocks_match(3) [OF b(1)] parseBlocks_match(3) [OF b'(1)] b(2) b'(2) by auto
  qed
  then show "rx_block_at (drop p content) \<noteq> None \<and> \<not> (\<exists>b\<in>set (parseBlocks L h content). innerEnd b = p)"
    using m by blast
next
  assume a: "rx_block_at (drop p content) \<noteq> None \<and> \<not> (\<exists>b\<in>set (parseBlocks L h content). innerEnd b = p)"
  then obtain b where "b \<in> set (parseBlocks L h content)" "innerStart b = 0 + p + 1 \<or> innerEnd b = 0 + p"
    using scan_loop_complete [OF assms, of L h 0 0] unfolding parseBlocks_def by blast
  then show "\<exists>b\<in>set (parseBlocks L h content). innerStart b = p + 1" using a by auto
qed

lemma parseBlocks_starts_sorted:
  "sorted_wrt (<) (map (\<lambda>b. innerStart b - 1) (parseBlocks L h content))"
proof -
  let ?bs = "parseBlocks L h content"
  have "sorted_wrt (<) (map innerStart ?bs)"
    unfolding parseBlocks_def by (rule scan_loop_sorted)
  then have "sorted_wrt (\<lambda>a b. innerStart a < innerStart b) ?bs"
    by (simp add: sorted_wrt_map)
  then have "sorted_wrt (\<lambda>a b. innerStart a - 1 < innerStart b - 1) ?bs"
  proof (rule sorted_wrt_mono_rel [rotated])
    fix a b assume "a \<in> set ?bs" "b \<in> set ?bs" "innerStart a < innerStart b"
    then show "innerStart a - 1 < innerStart b - 1"
      using parseBlocks_match(1) [of a L h content] by simp
  qed
  then show ?thesis by (simp add: sorted_wrt_map)
qed

lemma run_positions_sorted: "sorted_wrt (<) (run_positions content)"
  unfolding run_positions_def by (rule sorted_wrt_filter) simp

lemma parseBlocks_starts_subset:
  "set (map (\<lambda>b. innerStart b - 1) (parseBlocks L h content)) \<subseteq> set (run_positions content)"
proof
  fix p assume "p \<in> set (map (\<lambda>b. innerStart b - 1) (parseBlocks L h content))"
  then obtain b where b: "b \<in> set (parseBlocks L h content)" "p = innerStart b - 1" by auto
  show "p \<in> set (run_positions content)"
    using parseBlocks_match(2,4) [OF b(1)] b(2) by (simp add: run_positions_def)
qed

lemma parseBlocks_runs:
  assumes "no_chained_run content"
  shows "map (\<lambda>b. innerStart b - 1) (parseBlocks L h content) = run_positions content"
proof -
  let ?bs = "parseBlocks L h content"
  let ?xs = "map (\<lambda>b. innerStart b - 1) ?bs"
  have nc: "\<not> (\<exists>b\<in>set ?bs. rx_block_at (drop (innerEnd b) content) \<noteq> None)"
  proof
    assume "\<exists>b\<in>set ?bs. rx_block_at (drop (innerEnd b) content) \<noteq> None"
    then obtain b where b: "b \<in> set ?bs" "rx_block_at (drop (innerEnd b) content) \<noteq> None" by blast
    let ?p = "innerStart b - 1"
    have "?p \<in> set [0 ..< length content]" using parseBlocks_match(2) [OF b(1)] by simp
    then have "case rx_block_at (drop ?p content) of None \<Rightarrow> True
        | Some (q, inner, post) \<Rightarrow> rx_block_at (q # post) = None"
      using assms unfolding no_chained_run_def list_all_iff by blast
    then have "rx_block_at (quote b # drop (innerEnd b + 1) content) = None"
      using parseBlocks_match(4) [OF b(1)] by simp
    then show False using b(2) parseBlocks_closing [OF b(1)] by simp
  qed
  have "set (run_positions content) \<subseteq> set ?xs"
  proof
    fix p assume "p \<in> set (run_positions content)"
    then have p: "p < length content" "rx_block_at (drop p content) \<noteq> None"
      by (simp_all add: run_positions_def)
    have "\<not> (\<exists>b\<in>set ?bs. innerEnd b = p)" using nc p(2) by blast
    then obtain b where "b \<in> set ?bs" "innerStart b = p + 1"
      using iffD2 [OF parseBlocks_returned [OF p(1), of L h]] p(2) by blast
    then have "b \<in> set ?bs \<and> p = innerStart b - 1" by simp
    then show "p \<in> set ?xs" by auto
  qed
  then have "set ?xs = set (run_positions content)"
    using parseBlocks_starts_subset [of L h content] by blast
  then show ?thesis
    using parseBlocks_starts_sorted [of L h content] run_positions_sorted [of content]
    by (simp add: strict_sorted_equal)
qed

lemma parseBlocks_chained:
  assumes "map (\<lambda>b. innerStart b - 1) (parseBlocks L h content) = run_positions content"
  shows "no_chained_run content"
  unfolding no_chained_run_def list_all_iff
proof
  let ?bs = "parseBlocks L h content"
  fix p' assume "p' \<in> set [0 ..< length content]"
  then have pl: "p' < length content" by simp
  show "case rx_block_at (drop p' content) of None \<Rightarrow> True
      | Some (q, inner, post) \<Rightarrow> rx_block_at (q # post) = None"
  proof (cases "rx_block_at (drop p' content)")
    case None
    then show ?thesis by simp
  next
    case (Some r)
    obtain q inner post where r: "r = (q, inner, post)" by (cases r) auto
    have m: "rx_block_at (drop p' content) = Some (q, inner, post)" using Some r by simp
    have "rx_block_at (q # post) = None"
    proof (rule ccontr)
      assume n: "rx_block_at (q # post) \<noteq> None"
      let ?p = "length inner + 1 + p'"
      have "drop p' content = q # inner @ q # post" using m by (simp add: rx_block_at_iff)
      then have "drop (length inner + 1) (drop p' content) = q # post" by simp
      then have dp: "drop ?p content = q # post" by (simp only: drop_drop)
      then have pl2: "?p < length content" by (cases "?p < length content") simp_all
      have "p' \<in> set (run_positions content)" using pl m by (simp add: run_positions_def)
      then have "p' \<in> set (map (\<lambda>b. innerStart b - 1) ?bs)" using assms by simp
      then obtain b' where b': "b' \<in> set ?bs" "p' = innerStart b' - 1" by auto
      have "original b' = inner" using parseBlocks_match(4) [OF b'(1)] b'(2) m by simp
      then have e: "innerEnd b' = ?p" using parseBlocks_match(1,3) [OF b'(1)] b'(2) by simp
      have "?p \<in> set (run_positions content)" using pl2 n dp by (simp add: run_positions_def)
      then have "?p \<in> set (map (\<lambda>b. innerStart b - 1) ?bs)" using assms by simp
      then obtain b where b: "b \<in> set ?bs" "?p = innerStart b - 1" by auto
      have "innerStart b = ?p + 1" using parseBlocks_match(1) [OF b(1)] b(2) by simp
      then have "\<exists>b\<in>set ?bs. innerStart b = ?p + 1" using b(1) by blast
      then have "\<not> (\<exists>b\<in>set ?bs. innerEnd b = ?p)"
        using iffD1 [OF parseBlocks_returned [OF pl2, of L h]] by blast
      then show False using b'(1) e by blast
    qed
    then show ?thesis using m by simp
  qed
qed

lemma parseBlocks_count:
  "length (parseBlocks L h content) = length (run_positions content) \<longleftrightarrow> no_chained_run content"
proof
  let ?xs = "map (\<lambda>b. innerStart b - 1) (parseBlocks L h content)"
  assume l: "length (parseBlocks L h content) = length (run_positions content)"
  have dx: "distinct ?xs" using parseBlocks_starts_sorted [of L h content] by (simp add: strict_sorted_iff)
  have dr: "distinct (run_positions content)" using run_positions_sorted [of content] by (simp add: strict_sorted_iff)
  have "card (set ?xs) = card (set (run_positions content))"
    using l distinct_card [OF dx] distinct_card [OF dr] by simp
  then have "set ?xs = set (run_positions content)"
    using parseBlocks_starts_subset [of L h content] by (simp add: card_subset_eq)
  then have "?xs = run_positions content"
    using parseBlocks_starts_sorted [of L h content] run_positions_sorted [of content]
    by (simp add: strict_sorted_equal)
  then show "no_chained_run content" by (rule parseBlocks_chained)
next
  assume "no_chained_run content"
  then have "map (\<lambda>b. innerStart b - 1) (parseBlocks L h content) = run_positions content"
    by (rule parseBlocks_runs)
  then show "length (parseBlocks L h content) = length (run_positions content)"
    by (metis length_map)
qed

text \<open>
  Claim C2, as stated, at two host texts. The first is one quoted literal of 64 spaces: the
  scanner returns it as a block, although nothing is left of its inner content once
  whitespace is ignored. The second is \<^verbatim>\<open>"hi"\<close>, 64 times A and the literal of 64 times B:
  it has two quoted runs of 64 characters of the base64 alphabet, at the positions 3 and
  68, the second of them a literal of its own, and the scan has one block, the run of A;
  the literal of 64 times B is not returned, because its opening quote, at position 68,
  is the closing quote of the block.
\<close>

theorem scanner_matches_counterexample:
  "parseBlocks sample_lib WAVY_HINTS host_blank = [mk_block sample_lib WAVY_HINTS 0 0 (CHR 0x22) inner_blank]
   \<and> cleanedB64 (mk_block sample_lib WAVY_HINTS 0 0 (CHR 0x22) inner_blank) = []
   \<and> filter (\<lambda>c. \<not> is_space c) inner_blank = []
   \<and> run_positions host_chain = [3, 68]
   \<and> rx_block_at (drop 68 host_chain) = Some (CHR 0x22, replicate 64 (CHR ''B''), [])
   \<and> parseBlocks sample_lib WAVY_HINTS host_chain
       = [mk_block sample_lib WAVY_HINTS 0 3 (CHR 0x22) (replicate 64 (CHR ''A''))]
   \<and> innerEnd (mk_block sample_lib WAVY_HINTS 0 3 (CHR 0x22) (replicate 64 (CHR ''A''))) = 68
   \<and> \<not> no_chained_run host_chain"
proof (intro conjI)
  show "innerEnd (mk_block sample_lib WAVY_HINTS 0 3 (CHR 0x22) (replicate 64 (CHR ''A''))) = 68"
    by (simp add: mk_block_fields)
  show "\<not> no_chained_run host_chain"
    by code_simp
  have "64 \<le> length inner_blank \<and> (\<forall>c\<in>set inner_blank. payload_char c)"
    by (simp add: inner_blank_def payload_char_def is_space_def)
  then show "parseBlocks sample_lib WAVY_HINTS host_blank = [mk_block sample_lib WAVY_HINTS 0 0 (CHR 0x22) inner_blank]"
    unfolding host_blank_def by (intro parseBlocks_single) (simp_all add: is_quote_def)
  show "cleanedB64 (mk_block sample_lib WAVY_HINTS 0 0 (CHR 0x22) inner_blank) = []"
    by (simp add: mk_block_fields cleaned_def inner_blank_def is_space_def)
  show "filter (\<lambda>c. \<not> is_space c) inner_blank = []"
    by (simp add: inner_blank_def is_space_def)
  show "run_positions host_chain = [3, 68]"
    by code_simp
  show "rx_block_at (drop 68 host_chain) = Some (CHR 0x22, replicate 64 (CHR ''B''), [])"
    by code_simp
  have "scan_loop sample_lib WAVY_HINTS 0 0
          (CHR 0x22 # ''hi'' @ CHR 0x22 # replicate 64 (CHR ''A'') @ CHR 0x22 # replicate 64 (CHR ''B'') @ [CHR 0x22])
      = [mk_block sample_lib WAVY_HINTS 0 (0 + length ''hi'' + 1) (CHR 0x22) (replicate 64 (CHR ''A''))]"
    by (rule scan_loop_between) (simp_all add: is_quote_def payload_char_def is_upper_def list_all_iff)
  then show "parseBlocks sample_lib WAVY_HINTS host_chain
       = [mk_block sample_lib WAVY_HINTS 0 3 (CHR 0x22) (replicate 64 (CHR ''A''))]"
    by (simp add: parseBlocks_def host_chain_def numeral_3_eq_3)
qed

text \<open>
  Claim C2, amended. The pattern matches at a position iff the text there is a quote, at
  least 64 characters of the class (base64 alphabet, whitespace and the mask character,
  whitespace and mask characters counted), and the same quote again. Every block of a scan
  is such a quoted run, and a quoted run is returned as a block iff its opening quote is
  not the closing quote of a block of the scan: the runs are taken from left to right and
  do not overlap. So for a host text with \<open>k\<close> quoted runs and any other text, shorter
  literals included, the scan returns exactly \<open>k\<close> blocks iff no run opens at the quote
  that closes another run, and they are the \<open>k\<close> runs in text order. For every host text
  the \<open>innerStart\<close> of the blocks are strictly increasing and the blocks are numbered from
  0 in text order.
\<close>

theorem scanner_matches:
  "(rx_block_at s = Some (q, inner, post) \<longleftrightarrow>
      is_quote q \<and> s = q # inner @ q # post \<and> 64 \<le> length inner \<and> (\<forall>c\<in>set inner. payload_char c))
   \<and> (\<forall>b\<in>set (parseBlocks L hints content).
        1 \<le> innerStart b \<and> innerEnd b = innerStart b + length (original b)
        \<and> rx_block_at (drop (innerStart b - 1) content)
            = Some (quote b, original b, drop (innerEnd b + 1) content))
   \<and> (\<forall>p<length content.
        (\<exists>b\<in>set (parseBlocks L hints content). innerStart b = p + 1) \<longleftrightarrow>
        (rx_block_at (drop p content) \<noteq> None
         \<and> \<not> (\<exists>b\<in>set (parseBlocks L hints content). innerEnd b = p)))
   \<and> (length (parseBlocks L hints content) = length (run_positions content) \<longleftrightarrow> no_chained_run content)
   \<and> (no_chained_run content \<longrightarrow>
        map (\<lambda>b. innerStart b - 1) (parseBlocks L hints content) = run_positions content)
   \<and> sorted_wrt (\<lambda>a b. innerEnd a + 2 \<le> innerStart b) (parseBlocks L hints content)
   \<and> sorted_wrt (<) (map innerStart (parseBlocks L hints content))
   \<and> map index (parseBlocks L hints content) = [0 ..< length (parseBlocks L hints content)]"
proof (intro conjI ballI allI impI)
  show "rx_block_at s = Some (q, inner, post) \<longleftrightarrow>
      is_quote q \<and> s = q # inner @ q # post \<and> 64 \<le> length inner \<and> (\<forall>c\<in>set inner. payload_char c)"
    by (rule rx_block_at_iff)
  show "length (parseBlocks L hints content) = length (run_positions content) \<longleftrightarrow> no_chained_run content"
    by (rule parseBlocks_count)
  show "sorted_wrt (\<lambda>a b. innerEnd a + 2 \<le> innerStart b) (parseBlocks L hints content)"
    unfolding parseBlocks_def by (rule scan_loop_apart)
  show "sorted_wrt (<) (map innerStart (parseBlocks L hints content))"
    unfolding parseBlocks_def by (rule scan_loop_sorted)
  show "map index (parseBlocks L hints content) = [0 ..< length (parseBlocks L hints content)]"
    unfolding parseBlocks_def using scan_loop_index [of L hints 0 0 content] by simp
next
  fix b assume b: "b \<in> set (parseBlocks L hints content)"
  show "1 \<le> innerStart b" by (rule parseBlocks_match(1) [OF b])
  show "innerEnd b = innerStart b + length (original b)" by (rule parseBlocks_match(3) [OF b])
  show "rx_block_at (drop (innerStart b - 1) content)
      = Some (quote b, original b, drop (innerEnd b + 1) content)"
    by (rule parseBlocks_match(4) [OF b])
next
  fix p assume "p < length content"
  then show "(\<exists>b\<in>set (parseBlocks L hints content). innerStart b = p + 1) \<longleftrightarrow>
        (rx_block_at (drop p content) \<noteq> None
         \<and> \<not> (\<exists>b\<in>set (parseBlocks L hints content). innerEnd b = p))"
    by (rule parseBlocks_returned)
next
  assume "no_chained_run content"
  then show "map (\<lambda>b. innerStart b - 1) (parseBlocks L hints content) = run_positions content"
    by (rule parseBlocks_runs)
qed

theorem scanner_matches_witness:
  "no_chained_run host_mixed
   \<and> run_positions host_mixed = [30, 103]
   \<and> map (\<lambda>b. innerStart b - 1) (parseBlocks sample_lib WAVY_HINTS host_mixed) = [30, 103]
   \<and> length (parseBlocks sample_lib WAVY_HINTS host_mixed) = 2
   \<and> map (\<lambda>b. (quote b, original b)) (parseBlocks sample_lib WAVY_HINTS host_mixed)
       = [(CHR 0x27, inner_starred), (CHR 0x22, inner_spaced)]
   \<and> rx_block_at host_starred = Some (CHR 0x22, inner_starred, [])"
proof -
  let ?bs = "parseBlocks sample_lib WAVY_HINTS host_mixed"
  note r = scanner_matches [where s = host_starred and q = "CHR 0x22" and inner = inner_starred
      and post = "[]" and L = sample_lib and hints = WAVY_HINTS and content = host_mixed]
  have n: "no_chained_run host_mixed" by code_simp
  have k: "run_positions host_mixed = [30, 103]" by code_simp
  have m1: "rx_block_at (drop 30 host_mixed)
      = Some (CHR 0x27, inner_starred, drop 97 host_mixed)" by code_simp
  have m2: "rx_block_at (drop 103 host_mixed)
      = Some (CHR 0x22, inner_spaced, '';'')" by code_simp
  have 1: "map (\<lambda>b. innerStart b - 1) ?bs = run_positions host_mixed"
    by (rule mp [OF conjunct1 [OF conjunct2 [OF conjunct2 [OF conjunct2 [OF conjunct2 [OF r]]]]] n])
  have 2: "length ?bs = length (run_positions host_mixed)"
    by (rule iffD2 [OF conjunct1 [OF conjunct2 [OF conjunct2 [OF conjunct2 [OF r]]]] n])
  have "length ?bs = Suc (Suc 0)" using 2 unfolding k by simp
  then obtain b1 b2 where b: "?bs = [b1, b2]"
    by (auto simp: length_Suc_conv)
  have s: "innerStart b1 - 1 = 30" "innerStart b2 - 1 = 103" using 1 unfolding k b by simp_all
  have a: "\<forall>b\<in>set ?bs. 1 \<le> innerStart b \<and> innerEnd b = innerStart b + length (original b)
        \<and> rx_block_at (drop (innerStart b - 1) host_mixed)
            = Some (quote b, original b, drop (innerEnd b + 1) host_mixed)"
    by (rule conjunct1 [OF conjunct2 [OF r]])
  have "rx_block_at (drop (innerStart b1 - 1) host_mixed)
      = Some (quote b1, original b1, drop (innerEnd b1 + 1) host_mixed)"
    using a unfolding b by simp
  then have q1: "quote b1 = CHR 0x27 \<and> original b1 = inner_starred" unfolding s m1 by simp
  have "rx_block_at (drop (innerStart b2 - 1) host_mixed)
      = Some (quote b2, original b2, drop (innerEnd b2 + 1) host_mixed)"
    using a unfolding b by simp
  then have q2: "quote b2 = CHR 0x22 \<and> original b2 = inner_spaced" unfolding s m2 by simp
  have p: "64 \<le> length inner_starred \<and> (\<forall>c\<in>set inner_starred. payload_char c)"
    by (simp add: inner_starred_def payload_char_def is_upper_def)
  have l: "is_quote (CHR 0x22) \<and> host_starred = CHR 0x22 # inner_starred @ CHR 0x22 # []
      \<and> 64 \<le> length inner_starred \<and> (\<forall>c\<in>set inner_starred. payload_char c)"
    using p by (simp add: is_quote_def host_starred_def)
  have 3: "rx_block_at host_starred = Some (CHR 0x22, inner_starred, [])"
    by (rule iffD2 [OF conjunct1 [OF r] l])
  have 4: "map (\<lambda>b. innerStart b - 1) ?bs = [30, 103]" using 1 k by simp
  have 5: "length ?bs = 2" using 2 k by simp
  have 6: "map (\<lambda>b. (quote b, original b)) ?bs = [(CHR 0x27, inner_starred), (CHR 0x22, inner_spaced)]"
    unfolding b using q1 q2 by simp
  show ?thesis using n k 4 5 6 3 by (intro conjI)
qed

section \<open>Properties of the compression adapter\<close>

lemma char_of_eqI: "of_char c = (n::nat) \<Longrightarrow> char_of n = c"
  by auto

lemmas b64_simps = b64_index_def is_upper_def is_lower_def is_digit_def is_space_def

text \<open>What \<open>base64ToBytes\<close> makes of the sample payloads.\<close>

lemma bytes_zlib_FF: "base64ToBytes sample_lib ''eAEBAQD+//8BAAEA'' = Inr zlib_FF"
proof -
  have "those (map b64_index ''eAEBAQD+//8BAAEA'') = Some [30,0,4,1,0,16,3,62,63,63,60,1,0,0,4,0]"
    by (simp add: b64_simps)
  then have "atob_model ''eAEBAQD+//8BAAEA'' =
      Inr (map char_of (b64_groups [30,0,4,1,0,16,3,62,63,63,60,1,0,0,4,0]))"
    by (simp add: atob_model_def endsWith_def Let_def del: list.map)
  then have "atob_model ''eAEBAQD+//8BAAEA'' =
      Inr [CHR 0x78, CHR 0x01, CHR 0x01, CHR 0x01, CHR 0x00, CHR 0xFE, CHR 0xFF, CHR 0xFF,
           CHR 0x01, CHR 0x00, CHR 0x01, CHR 0x00]"
    by (simp add: char_of_eqI)
  then show ?thesis
    by (simp add: base64ToBytes_def sample_lib_def zlib_FF_def is_space_def)
qed

lemma bytes_zlib_empty: "base64ToBytes sample_lib ''eJwDAAAAAAE='' = Inr zlib_empty"
proof -
  have "those (map b64_index ''eJwDAAAAAAE'') = Some [30,9,48,3,0,0,0,0,0,0,4]"
    by (simp add: b64_simps)
  then have "atob_model ''eJwDAAAAAAE='' = Inr (map char_of (b64_groups [30,9,48,3,0,0,0,0,0,0,4]))"
    by (simp add: atob_model_def endsWith_def Let_def del: list.map)
  then have "atob_model ''eJwDAAAAAAE='' =
      Inr [CHR 0x78, CHR 0x9C, CHR 0x03, CHR 0x00, CHR 0x00, CHR 0x00, CHR 0x00, CHR 0x01]"
    by (simp add: char_of_eqI)
  then show ?thesis
    by (simp add: base64ToBytes_def sample_lib_def zlib_empty_def is_space_def)
qed

lemma bytes_raw_empty: "base64ToBytes sample_lib ''AwA='' = Inr raw_empty"
proof -
  have "those (map b64_index ''AwA'') = Some [0,48,0]"
    by (simp add: b64_simps)
  then have "atob_model ''AwA='' = Inr (map char_of (b64_groups [0,48,0]))"
    by (simp add: atob_model_def endsWith_def Let_def del: list.map)
  then have "atob_model ''AwA='' = Inr [CHR 0x03, CHR 0x00]"
    by (simp add: char_of_eqI)
  then show ?thesis
    by (simp add: base64ToBytes_def sample_lib_def raw_empty_def is_space_def)
qed

lemma bytes_gzip_empty: "base64ToBytes sample_lib ''H4sIAAAAAAAAAwMAAAAAAAAAAAA='' = Inr gzip_empty"
proof -
  have "those (map b64_index ''H4sIAAAAAAAAAwMAAAAAAAAAAAA'') =
      Some [7,56,44,8,0,0,0,0,0,0,0,0,0,48,12,0,0,0,0,0,0,0,0,0,0,0,0]"
    by (simp add: b64_simps)
  then have "atob_model ''H4sIAAAAAAAAAwMAAAAAAAAAAAA='' =
      Inr (map char_of (b64_groups [7,56,44,8,0,0,0,0,0,0,0,0,0,48,12,0,0,0,0,0,0,0,0,0,0,0,0]))"
    by (simp add: atob_model_def endsWith_def Let_def del: list.map)
  then have "atob_model ''H4sIAAAAAAAAAwMAAAAAAAAAAAA='' =
      Inr [CHR 0x1F, CHR 0x8B, CHR 0x08, CHR 0x00, CHR 0x00, CHR 0x00, CHR 0x00, CHR 0x00, CHR 0x00, CHR 0x03,
           CHR 0x03, CHR 0x00, CHR 0x00, CHR 0x00, CHR 0x00, CHR 0x00, CHR 0x00, CHR 0x00, CHR 0x00, CHR 0x00]"
    by (simp add: char_of_eqI)
  then show ?thesis
    by (simp add: base64ToBytes_def sample_lib_def gzip_empty_def is_space_def)
qed

lemma bytes_zeros: "base64ToBytes sample_lib ''AAAA'' = Inr cut_stored"
proof -
  have "those (map b64_index ''AAAA'') = Some [0,0,0,0]"
    by (simp add: b64_simps)
  then have "atob_model ''AAAA'' = Inr (map char_of (b64_groups [0,0,0,0]))"
    by (simp add: atob_model_def endsWith_def Let_def del: list.map)
  then have "atob_model ''AAAA'' = Inr [CHR 0x00, CHR 0x00, CHR 0x00]"
    by (simp add: char_of_eqI)
  then show ?thesis
    by (simp add: base64ToBytes_def sample_lib_def cut_stored_def is_space_def)
qed

lemma bytes_no_stream: "base64ToBytes sample_lib ''////'' = Inr no_stream"
proof -
  have "those (map b64_index ''////'') = Some [63,63,63,63]"
    by (simp add: b64_simps)
  then have "atob_model ''////'' = Inr (map char_of (b64_groups [63,63,63,63]))"
    by (simp add: atob_model_def endsWith_def Let_def del: list.map)
  then have "atob_model ''////'' = Inr [CHR 0xFF, CHR 0xFF, CHR 0xFF]"
    by (simp add: char_of_eqI)
  then show ?thesis
    by (simp add: base64ToBytes_def sample_lib_def no_stream_def is_space_def)
qed

lemma sample_lib_fields:
  "pako_inflate sample_lib = sample_inflate" "pako_inflateRaw sample_lib = sample_inflateRaw"
  "pako_ungzip sample_lib = sample_ungzip" "text_decode sample_lib = sample_text_decode"
  by (simp_all add: sample_lib_def)

lemma sample_streams:
  "sample_inflate zlib_FF = Some [0xFF]" "sample_inflate zlib_empty = Some []"
  "sample_inflate raw_empty = None" "sample_inflateRaw raw_empty = Some []"
  "sample_inflate gzip_empty = Some []"
  "sample_inflate cut_stored = None" "sample_inflateRaw cut_stored = Some []"
  "sample_ungzip cut_stored = None"
  "sample_inflate no_stream = None" "sample_inflateRaw no_stream = None"
  "sample_ungzip no_stream = None"
  by (simp_all add: sample_inflate_def sample_inflateRaw_def sample_ungzip_def
      zlib_FF_def zlib_empty_def raw_empty_def gzip_empty_def cut_stored_def no_stream_def)

text \<open>
  Claim C4, as stated, at the payload \<^verbatim>\<open>AAAA\<close>, three zero bytes. They are a stream of none
  of the three framings: the readers of the zlib and of the gzip framing throw, and as raw
  deflate the bytes open a stored block and break off inside its header. But
  \<^verbatim>\<open>pako.inflateRaw\<close> returns there, without output, and a call that returns ends the
  loop: all three framings have failed, and the result is not the error but the empty
  text.
\<close>

theorem decompress_priority_counterexample:
  "base64ToBytes sample_lib ''AAAA'' = Inr cut_stored
   \<and> pako_inflate sample_lib cut_stored = None
   \<and> stored_block_cut cut_stored
   \<and> pako_inflateRaw sample_lib cut_stored = Some []
   \<and> pako_ungzip sample_lib cut_stored = None
   \<and> decodeZlibBase64 sample_lib ''AAAA'' = Ok []"
proof (intro conjI)
  show "base64ToBytes sample_lib ''AAAA'' = Inr cut_stored" by (rule bytes_zeros)
  show "pako_inflate sample_lib cut_stored = None" by (simp add: sample_lib_fields sample_streams)
  show "stored_block_cut cut_stored" by (simp add: stored_block_cut_def cut_stored_def)
  show "pako_inflateRaw sample_lib cut_stored = Some []" by (simp add: sample_lib_fields sample_streams)
  show "pako_ungzip sample_lib cut_stored = None" by (simp add: sample_lib_fields sample_streams)
  show "decodeZlibBase64 sample_lib ''AAAA'' = Ok []"
    by (simp add: decodeZlibBase64_def bytes_zeros tries_def sample_lib_fields sample_streams
        sample_text_decode_def)
qed

text \<open>
  Claim C4, amended. \<open>decodeZlibBase64\<close> calls exactly three functions of the library, for
  the zlib-wrapped, the raw and the gzip-wrapped framing in this order, and returns the
  decoder's text of what the first call that does not throw has returned; what the call
  returned is not inspected. The result is the error, with no text at all, when all three
  calls throw, and when the base64 decoding throws.
\<close>

theorem decompress_priority:
  "tries L = [pako_inflate L, pako_inflateRaw L, pako_ungzip L]
   \<and> decodeZlibBase64 L input =
       (case base64ToBytes L input of
          Inl msg \<Rightarrow> NotOk msg
        | Inr bytes \<Rightarrow>
            (case pako_inflate L bytes of
               Some out \<Rightarrow> Ok (text_decode L out)
             | None \<Rightarrow>
                 (case pako_inflateRaw L bytes of
                    Some out \<Rightarrow> Ok (text_decode L out)
                  | None \<Rightarrow>
                      (case pako_ungzip L bytes of
                         Some out \<Rightarrow> Ok (text_decode L out)
                       | None \<Rightarrow> NotOk ''Unable to inflate with zlib/raw/gzip.''))))"
  by (simp add: decodeZlibBase64_def tries_def split: sum.splits option.splits)

theorem decompress_priority_witness:
  "decodeZlibBase64 sample_lib ''eJwDAAAAAAE='' = Ok []
   \<and> decodeZlibBase64 sample_lib ''AwA='' = Ok []
   \<and> decodeZlibBase64 sample_lib ''H4sIAAAAAAAAAwMAAAAAAAAAAAA='' = Ok []
   \<and> decodeZlibBase64 sample_lib ''////'' = NotOk ''Unable to inflate with zlib/raw/gzip.''"
proof (intro conjI)
  have td: "sample_text_decode [] = []"
    by (simp add: sample_text_decode_def)
  show "decodeZlibBase64 sample_lib ''eJwDAAAAAAE='' = Ok []"
    using conjunct2 [OF decompress_priority [of sample_lib "''eJwDAAAAAAE=''"]]
    by (simp add: bytes_zlib_empty sample_lib_fields sample_streams td)
  show "decodeZlibBase64 sample_lib ''AwA='' = Ok []"
    using conjunct2 [OF decompress_priority [of sample_lib "''AwA=''"]]
    by (simp add: bytes_raw_empty sample_lib_fields sample_streams td)
  show "decodeZlibBase64 sample_lib ''H4sIAAAAAAAAAwMAAAAAAAAAAAA='' = Ok []"
    using conjunct2 [OF decompress_priority [of sample_lib "''H4sIAAAAAAAAAwMAAAAAAAAAAAA=''"]]
    by (simp add: bytes_gzip_empty sample_lib_fields sample_streams td)
  show "decodeZlibBase64 sample_lib ''////'' = NotOk ''Unable to inflate with zlib/raw/gzip.''"
    using conjunct2 [OF decompress_priority [of sample_lib "''////''"]]
    by (simp add: bytes_no_stream sample_lib_fields sample_streams)
qed

text \<open>
  Claim C3, as stated, at the payload \<^verbatim>\<open>eAEBAQD+//8BAAEA\<close>: it is the zlib stream of the one
  byte \<open>0xFF\<close>, which is not valid UTF-8, and decoding it does not fail: the zlib framing
  is accepted, and the text returned is the replacement character that the decoder
  substituted. It is also the decoded text of the block of a host text that holds the
  payload.
\<close>

theorem decode_invalid_utf8_counterexample:
  "base64ToBytes sample_lib ''eAEBAQD+//8BAAEA'' = Inr zlib_FF
   \<and> pako_inflate sample_lib zlib_FF = Some [0xFF]
   \<and> \<not> utf8_valid [0xFF]
   \<and> decodeZlibBase64 sample_lib ''eAEBAQD+//8BAAEA'' = Ok [replacement_character]
   \<and> map decodedText (parseBlocks sample_lib WAVY_HINTS host_invalid_utf8) = [Some [replacement_character]]"
proof (intro conjI)
  show "base64ToBytes sample_lib ''eAEBAQD+//8BAAEA'' = Inr zlib_FF" by (rule bytes_zlib_FF)
  show "pako_inflate sample_lib zlib_FF = Some [0xFF]"
    by (simp add: sample_lib_fields sample_streams)
  show "\<not> utf8_valid [0xFF]" by simp
  show d: "decodeZlibBase64 sample_lib ''eAEBAQD+//8BAAEA'' = Ok [replacement_character]"
    by (simp add: decodeZlibBase64_def bytes_zlib_FF tries_def sample_lib_fields sample_streams
        sample_text_decode_def)
  have c: "cleaned inner_invalid_utf8 = ''eAEBAQD+//8BAAEA''"
    by (simp add: cleaned_def inner_invalid_utf8_def is_space_def)
  have p: "64 \<le> length inner_invalid_utf8 \<and> (\<forall>c\<in>set inner_invalid_utf8. payload_char c)"
    by (simp add: inner_invalid_utf8_def payload_char_def is_upper_def is_lower_def is_digit_def
        is_space_def)
  have "parseBlocks sample_lib WAVY_HINTS host_invalid_utf8
      = [mk_block sample_lib WAVY_HINTS 0 0 (CHR 0x22) inner_invalid_utf8]"
    unfolding host_invalid_utf8_def using p by (intro parseBlocks_single) (simp_all add: is_quote_def)
  then show "map decodedText (parseBlocks sample_lib WAVY_HINTS host_invalid_utf8) = [Some [replacement_character]]"
    by (simp add: mk_block_def Let_def c d)
qed

text \<open>
  Claim C3, amended. Whether the bytes that a framing gives are valid UTF-8 plays no part:
  the decoder is the non-fatal one and has a text for every byte sequence. When the base64
  decoding does not throw, the result is the decoder's text of what the first call, in the
  order zlib-wrapped, raw, gzip-wrapped, that does not throw has returned, whatever these
  bytes are. Decoding fails only when the base64 decoding throws, with its message, or
  when all three calls throw. The decoded value of a block of a scan is this text for the
  block's mask-stripped string, and is absent only when decoding fails.
\<close>

theorem decode_ignores_utf8:
  "(base64ToBytes L input = Inr bytes
      \<and> (pako_inflate L bytes = Some out
         \<or> pako_inflate L bytes = None \<and> pako_inflateRaw L bytes = Some out
         \<or> pako_inflate L bytes = None \<and> pako_inflateRaw L bytes = None
            \<and> pako_ungzip L bytes = Some out)
      \<longrightarrow> decodeZlibBase64 L input = Ok (text_decode L out))
   \<and> (decodeZlibBase64 L input = NotOk e \<longleftrightarrow>
        base64ToBytes L input = Inl e
        \<or> (\<exists>bs. base64ToBytes L input = Inr bs \<and> pako_inflate L bs = None
              \<and> pako_inflateRaw L bs = None \<and> pako_ungzip L bs = None
              \<and> e = ''Unable to inflate with zlib/raw/gzip.''))
   \<and> (blk \<in> set (parseBlocks L hints content) \<longrightarrow>
        decodedText blk =
          (case decodeZlibBase64 L (cleanedB64 blk) of Ok t \<Rightarrow> Some t | NotOk m \<Rightarrow> None))"
proof (intro conjI impI)
  assume "base64ToBytes L input = Inr bytes
      \<and> (pako_inflate L bytes = Some out
         \<or> pako_inflate L bytes = None \<and> pako_inflateRaw L bytes = Some out
         \<or> pako_inflate L bytes = None \<and> pako_inflateRaw L bytes = None
            \<and> pako_ungzip L bytes = Some out)"
  then show "decodeZlibBase64 L input = Ok (text_decode L out)"
    by (auto simp: decodeZlibBase64_def tries_def)
next
  show "decodeZlibBase64 L input = NotOk e \<longleftrightarrow>
        base64ToBytes L input = Inl e
        \<or> (\<exists>bs. base64ToBytes L input = Inr bs \<and> pako_inflate L bs = None
              \<and> pako_inflateRaw L bs = None \<and> pako_ungzip L bs = None
              \<and> e = ''Unable to inflate with zlib/raw/gzip.'')"
    by (auto simp: decodeZlibBase64_def tries_def split: sum.splits option.splits)
next
  assume "blk \<in> set (parseBlocks L hints content)"
  then obtain pre q inner post idx' where "blk = mk_block L hints idx' (0 + length pre) q inner"
      "content = pre @ q # inner @ q # post"
    using scan_loop_set [of blk L hints 0 0 content] unfolding parseBlocks_def by blast
  then show "decodedText blk =
      (case decodeZlibBase64 L (cleanedB64 blk) of Ok t \<Rightarrow> Some t | NotOk m \<Rightarrow> None)"
    by (simp add: mk_block_def Let_def)
qed

theorem decode_ignores_utf8_witness:
  "base64ToBytes sample_lib ''eAEBAQD+//8BAAEA'' = Inr zlib_FF \<and> pako_inflate sample_lib zlib_FF = Some [0xFF]
   \<and> \<not> utf8_valid [0xFF]
   \<and> decodeZlibBase64 sample_lib ''eAEBAQD+//8BAAEA'' = Ok (text_decode sample_lib [0xFF])
   \<and> base64ToBytes sample_lib ''AwA='' = Inr raw_empty \<and> pako_inflate sample_lib raw_empty = None
   \<and> pako_inflateRaw sample_lib raw_empty = Some []
   \<and> decodeZlibBase64 sample_lib ''AwA='' = Ok (text_decode sample_lib [])
   \<and> mk_block sample_lib WAVY_HINTS 0 0 (CHR 0x22) inner_invalid_utf8
       \<in> set (parseBlocks sample_lib WAVY_HINTS host_invalid_utf8)
   \<and> decodedText (mk_block sample_lib WAVY_HINTS 0 0 (CHR 0x22) inner_invalid_utf8)
       = Some (text_decode sample_lib [0xFF])"
proof -
  let ?blk = "mk_block sample_lib WAVY_HINTS 0 0 (CHR 0x22) inner_invalid_utf8"
  have h1: "base64ToBytes sample_lib ''eAEBAQD+//8BAAEA'' = Inr zlib_FF"
    by (rule bytes_zlib_FF)
  have h2: "pako_inflate sample_lib zlib_FF = Some [0xFF]"
    by (simp add: sample_lib_fields sample_streams)
  have h3: "\<not> utf8_valid [0xFF]" by simp
  have d1: "decodeZlibBase64 sample_lib ''eAEBAQD+//8BAAEA'' = Ok (text_decode sample_lib [0xFF])"
    using conjunct1 [OF decode_ignores_utf8 [of sample_lib "''eAEBAQD+//8BAAEA''" zlib_FF "[0xFF]"]]
      h1 h2 by blast
  have g1: "base64ToBytes sample_lib ''AwA='' = Inr raw_empty" by (rule bytes_raw_empty)
  have g2: "pako_inflate sample_lib raw_empty = None" "pako_inflateRaw sample_lib raw_empty = Some []"
    by (simp_all add: sample_lib_fields sample_streams)
  have d2: "decodeZlibBase64 sample_lib ''AwA='' = Ok (text_decode sample_lib [])"
    using conjunct1 [OF decode_ignores_utf8 [of sample_lib "''AwA=''" raw_empty "[]"]]
      g1 g2 by blast
  have c: "cleaned inner_invalid_utf8 = ''eAEBAQD+//8BAAEA''"
    by (simp add: cleaned_def inner_invalid_utf8_def is_space_def)
  have p: "64 \<le> length inner_invalid_utf8 \<and> (\<forall>c\<in>set inner_invalid_utf8. payload_char c)"
    by (simp add: inner_invalid_utf8_def payload_char_def is_upper_def is_lower_def is_digit_def
        is_space_def)
  have "parseBlocks sample_lib WAVY_HINTS host_invalid_utf8 = [?blk]"
    unfolding host_invalid_utf8_def using p by (intro parseBlocks_single) (simp_all add: is_quote_def)
  then have m: "?blk \<in> set (parseBlocks sample_lib WAVY_HINTS host_invalid_utf8)" by simp
  have "decodedText ?blk =
      (case decodeZlibBase64 sample_lib (cleanedB64 ?blk) of Ok t \<Rightarrow> Some t | NotOk m \<Rightarrow> None)"
    by (rule mp [OF conjunct2 [OF conjunct2 [OF decode_ignores_utf8
        [of sample_lib _ _ _ _ ?blk WAVY_HINTS host_invalid_utf8]]] m])
  then have d3: "decodedText ?blk = Some (text_decode sample_lib [0xFF])"
    by (simp add: mk_block_fields c d1)
  show ?thesis using h1 h2 h3 d1 g1 g2 d2 m d3 by (intro conjI)
qed

section \<open>Auto-open selection\<close>

text \<open>
  Claim C7 at a host text whose only block holds the zlib stream of the empty text: the
  block is found and decodes without error, to the empty text, and no block is selected:
  \<open>onOpenFile\<close> ends in the toast "Decode failed".
\<close>

theorem auto_open_empty_text:
  "decodeZlibBase64 sample_lib (cleaned inner_empty_payload) = Ok []
   \<and> map decodedText (parseBlocks sample_lib WAVY_HINTS host_empty_payload) = [Some []]
   \<and> firstDecodable (parseBlocks sample_lib WAVY_HINTS host_empty_payload) = None
   \<and> onOpenFile sample_lib WAVY_HINTS host_empty_payload = DecodeFailed"
proof -
  let ?blk = "mk_block sample_lib WAVY_HINTS 0 0 (CHR 0x22) inner_empty_payload"
  have c: "cleaned inner_empty_payload = ''eJwDAAAAAAE=''"
    by (simp add: cleaned_def inner_empty_payload_def is_space_def)
  have d: "decodeZlibBase64 sample_lib ''eJwDAAAAAAE='' = Ok []"
    by (simp add: decodeZlibBase64_def bytes_zlib_empty tries_def sample_lib_fields sample_streams
        sample_text_decode_def)
  have p: "64 \<le> length inner_empty_payload \<and> (\<forall>c\<in>set inner_empty_payload. payload_char c)"
    by (simp add: inner_empty_payload_def payload_char_def is_upper_def is_lower_def is_digit_def
        is_space_def)
  have b: "parseBlocks sample_lib WAVY_HINTS host_empty_payload = [?blk]"
    unfolding host_empty_payload_def using p by (intro parseBlocks_single) (simp_all add: is_quote_def)
  have t: "decodedText ?blk = Some []" "likely ?blk = False"
    by (simp_all add: mk_block_def c d truthy_def)
  have f: "firstDecodable [?blk] = None"
    by (simp add: firstDecodable_def t truthy_def)
  show ?thesis using f by (simp add: c d b t onOpenFile_def)
qed


text \<open>
  The selection of \<open>onOpenFile\<close> in terms of the test the code makes: the block selected is
  the first block in text order whose decoded text is non-empty and classified; when there
  is none, the first block whose decoded text is non-empty; no block is selected iff no
  block has a non-empty decoded text.
\<close>

theorem firstDecodable_policy:
  "(firstDecodable found = None \<longleftrightarrow> (\<forall>b\<in>set found. \<not> truthy (decodedText b)))
   \<and> (firstDecodable found = Some b \<longrightarrow>
        (\<exists>i<length found. found ! i = b \<and> truthy (decodedText b)
           \<and> (if \<exists>c\<in>set found. likely c \<and> truthy (decodedText c)
                then likely b \<and> (\<forall>j<i. \<not> (likely (found ! j) \<and> truthy (decodedText (found ! j))))
                else (\<forall>j<i. \<not> truthy (decodedText (found ! j))))))"
proof (intro conjI impI)
  show "firstDecodable found = None \<longleftrightarrow> (\<forall>b\<in>set found. \<not> truthy (decodedText b))"
  proof (cases "find (\<lambda>b. likely b \<and> truthy (decodedText b)) found")
    case None
    then have "firstDecodable found = find (\<lambda>b. truthy (decodedText b)) found"
      by (simp add: firstDecodable_def)
    then show ?thesis by (auto simp: find_None_iff)
  next
    case (Some c)
    then have c: "c \<in> set found \<and> truthy (decodedText c)"
      unfolding find_Some_iff by auto
    have "firstDecodable found = Some c" using Some by (simp add: firstDecodable_def)
    then show ?thesis using c by auto
  qed
next
  assume s: "firstDecodable found = Some b"
  let ?P = "\<lambda>b. likely b \<and> truthy (decodedText b)"
  let ?Q = "\<lambda>b. truthy (decodedText b)"
  show "\<exists>i<length found. found ! i = b \<and> truthy (decodedText b)
           \<and> (if \<exists>c\<in>set found. likely c \<and> truthy (decodedText c)
                then likely b \<and> (\<forall>j<i. \<not> (likely (found ! j) \<and> truthy (decodedText (found ! j))))
                else (\<forall>j<i. \<not> truthy (decodedText (found ! j))))"
  proof (cases "find ?P found")
    case None
    then have n: "\<not> (\<exists>c\<in>set found. likely c \<and> truthy (decodedText c))"
      by (simp add: find_None_iff)
    have "find ?Q found = Some b" using s None by (simp add: firstDecodable_def)
    then obtain i where "i < length found" "?Q (found ! i)" "b = found ! i" "\<forall>j<i. \<not> ?Q (found ! j)"
      unfolding find_Some_iff by blast
    then show ?thesis using n by auto
  next
    case (Some c)
    then have y: "\<exists>c\<in>set found. likely c \<and> truthy (decodedText c)"
      by (metis (mono_tags, lifting) find_None_iff option.distinct(1))
    have "find ?P found = Some b" using s Some by (simp add: firstDecodable_def)
    then obtain i where "i < length found" "?P (found ! i)" "b = found ! i" "\<forall>j<i. \<not> ?P (found ! j)"
      unfolding find_Some_iff by blast
    then show ?thesis using y by auto
  qed
qed

theorem firstDecodable_policy_witness:
  "firstDecodable sample_found = Some (sample_found ! 2)
   \<and> firstDecodable (take 2 sample_found) = Some (sample_found ! 1)
   \<and> firstDecodable (take 1 sample_found) = None
   \<and> likely (sample_found ! 2) \<and> truthy (decodedText (sample_found ! 2))"
proof -
  have 1: "firstDecodable sample_found = Some (sample_found ! 2)"
    by (simp add: firstDecodable_def sample_found_def truthy_def)
  have 2: "firstDecodable (take 2 sample_found) = Some (sample_found ! 1)"
    by (simp add: firstDecodable_def sample_found_def truthy_def)
  have n: "\<forall>b\<in>set (take 1 sample_found). \<not> truthy (decodedText b)"
    by (simp add: sample_found_def truthy_def)
  have 3: "firstDecodable (take 1 sample_found) = None"
    by (rule iffD2 [OF conjunct1 [OF firstDecodable_policy [of "take 1 sample_found"]] n])
  obtain i where i: "i < length sample_found" "sample_found ! i = sample_found ! 2"
      "truthy (decodedText (sample_found ! 2))"
    using mp [OF conjunct2 [OF firstDecodable_policy [of sample_found "sample_found ! 2"]] 1] by blast
  have 4: "likely (sample_found ! 2)" by (simp add: sample_found_def)
  show ?thesis using 1 2 3 4 i(3) by (intro conjI)
qed

section \<open>The name of the exported file\<close>

lemma endsWith_append: "endsWith (stem @ p) p"
  by (simp add: endsWith_def)

lemma replace_as_stem: "replace_as (stem @ ''.as'') repl = stem @ repl"
  by (simp add: replace_as_def Let_def)

lemma suggested_waves_as: "suggested_waves (stem @ ''.as'') = stem @ ''_edited.as''"
  using endsWith_append [of stem "''.as''"] by (simp add: suggested_waves_def replace_as_stem)

lemma suggested_environment_as: "suggested_environment (stem @ ''.as'') = stem @ ''_env_edited.as''"
  using endsWith_append [of stem "''.as''"] by (simp add: suggested_environment_def replace_as_stem)

lemma endsWith_stem: "endsWith f p \<Longrightarrow> \<exists>stem. f = stem @ p"
  unfolding endsWith_def by (metis append_take_drop_id)

lemma longer_differs: "length a \<noteq> length b \<Longrightarrow> a \<noteq> b"
  by auto

lemma suggested_waves_differs: "suggested_waves f \<noteq> f"
proof (cases "endsWith f ''.as''")
  case True
  then obtain stem where f: "f = stem @ ''.as''" using endsWith_stem by blast
  show ?thesis unfolding f suggested_waves_as by (rule longer_differs) simp
next
  case False
  then show ?thesis by (intro longer_differs) (simp add: suggested_waves_def)
qed

lemma suggested_environment_differs: "suggested_environment f \<noteq> f"
proof (cases "endsWith f ''.as''")
  case True
  then obtain stem where f: "f = stem @ ''.as''" using endsWith_stem by blast
  show ?thesis unfolding f suggested_environment_as by (rule longer_differs) simp
next
  case False
  then show ?thesis by (intro longer_differs) (simp add: suggested_environment_def)
qed

text \<open>
  Claim C8, as stated, at the file name \<open>level.txt\<close>: the name does not end with
  \<^verbatim>\<open>.as\<close>, and the export name is the file name itself with \<^verbatim>\<open>_edited.as\<close> appended, not
  the generic name \<open>waves\<close> with the suffix.
\<close>

theorem export_name_counterexample:
  "\<not> endsWith ''level.txt'' ''.as''
   \<and> suggested_waves ''level.txt'' = ''level.txt_edited.as''
   \<and> suggested_waves ''level.txt'' \<noteq> ''waves_edited.as''
   \<and> suggested_environment ''level.txt'' = ''level.txt_edited.as''
   \<and> suggested_environment ''level.txt'' \<noteq> ''environment_edited.as''"
  by (simp add: endsWith_def suggested_waves_def suggested_environment_def)

text \<open>
  Claim C8, amended. For every input file name the export file name differs from it, in
  both editors. When the name ends with \<^verbatim>\<open>.as\<close>, the suffix (\<^verbatim>\<open>_edited\<close>, in the environment
  editor \<^verbatim>\<open>_env_edited\<close>) is put before that extension. Otherwise \<^verbatim>\<open>_edited.as\<close> is appended
  to the whole file name; the generic name (\<open>waves\<close>, \<open>environment\<close>) stands in only for an
  empty file name.
\<close>

theorem export_name_differs:
  "suggested_waves f \<noteq> f \<and> suggested_environment f \<noteq> f
   \<and> suggested_waves (stem @ ''.as'') = stem @ ''_edited.as''
   \<and> suggested_environment (stem @ ''.as'') = stem @ ''_env_edited.as''
   \<and> (\<not> endsWith f ''.as'' \<longrightarrow>
        suggested_waves f = (if f = [] then ''waves'' else f) @ ''_edited.as''
        \<and> suggested_environment f = (if f = [] then ''environment'' else f) @ ''_edited.as'')"
proof (intro conjI impI)
  show "suggested_waves f \<noteq> f" by (rule suggested_waves_differs)
  show "suggested_environment f \<noteq> f" by (rule suggested_environment_differs)
  show "suggested_waves (stem @ ''.as'') = stem @ ''_edited.as''" by (rule suggested_waves_as)
  show "suggested_environment (stem @ ''.as'') = stem @ ''_env_edited.as''"
    by (rule suggested_environment_as)
next
  assume n: "\<not> endsWith f ''.as''"
  show "suggested_waves f = (if f = [] then ''waves'' else f) @ ''_edited.as''"
    using n by (simp add: suggested_waves_def)
  show "suggested_environment f = (if f = [] then ''environment'' else f) @ ''_edited.as''"
    using n by (simp add: suggested_environment_def)
qed

theorem export_name_differs_witness:
  "\<not> endsWith ''notes'' ''.as''
   \<and> suggested_waves ''notes'' = ''notes_edited.as''
   \<and> suggested_environment ''notes'' = ''notes_edited.as''
   \<and> suggested_waves ''level.as'' = ''level_edited.as''
   \<and> suggested_environment ''level.as'' = ''level_env_edited.as''
   \<and> suggested_waves ''level.as'' \<noteq> ''level.as''"
proof -
  have n: "\<not> endsWith ''notes'' ''.as''" by (simp add: endsWith_def)
  note r = export_name_differs [of "''notes''" "''level''"]
  note q = export_name_differs [of "''level.as''" "''level''"]
  have 1: "suggested_waves ''notes'' = (if ''notes'' = [] then ''waves'' else ''notes'') @ ''_edited.as''
      \<and> suggested_environment ''notes'' = (if ''notes'' = [] then ''environment'' else ''notes'') @ ''_edited.as''"
    by (rule mp [OF conjunct2 [OF conjunct2 [OF conjunct2 [OF conjunct2 [OF r]]]] n])
  have 2: "suggested_waves (''level'' @ ''.as'') = ''level'' @ ''_edited.as''"
    by (rule conjunct1 [OF conjunct2 [OF conjunct2 [OF r]]])
  have 3: "suggested_environment (''level'' @ ''.as'') = ''level'' @ ''_env_edited.as''"
    by (rule conjunct1 [OF conjunct2 [OF conjunct2 [OF conjunct2 [OF r]]]])
  have 4: "suggested_waves ''level.as'' \<noteq> ''level.as''" by (rule conjunct1 [OF q])
  show ?thesis using n 1 2 3 4 by simp
qed

section \<open>Properties of the wave parser\<close>

text \<open>Without a wave-start line the loop only fills the buffer of orphaned lines.\<close>

lemma foldl_wave_step_orphans:
  "\<forall>(i, l)\<in>set ps. \<not> isWaveStart l i \<Longrightarrow> currentWave st = None \<Longrightarrow>
   foldl wave_step st ps = st\<lparr> orphanedLines := orphanedLines st @ map snd ps \<rparr>"
proof (induction ps arbitrary: st)
  case Nil
  show ?case by simp
next
  case (Cons p ps)
  obtain i l where p: "p = (i, l)" by (cases p) auto
  have n: "\<not> isWaveStart l i" using Cons.prems(1) p by simp
  have s: "wave_step st p = st\<lparr> orphanedLines := orphanedLines st @ [l] \<rparr>"
    using n Cons.prems(2) p by (simp add: wave_step_def)
  have "foldl wave_step (wave_step st p) ps =
      (wave_step st p)\<lparr> orphanedLines := orphanedLines (wave_step st p) @ map snd ps \<rparr>"
  proof (rule Cons.IH)
    show "\<forall>(i, l)\<in>set ps. \<not> isWaveStart l i" using Cons.prems(1) by simp
    show "currentWave (wave_step st p) = None" using Cons.prems(2) by (simp add: s)
  qed
  then have "foldl wave_step (wave_step st p) ps = st\<lparr> orphanedLines := orphanedLines st @ l # map snd ps \<rparr>"
    unfolding s by simp
  then show ?case by (simp add: p)
qed

lemma parseWaves_orphans:
  assumes "wave_lines txt \<noteq> []" "\<forall>i<length (wave_lines txt). \<not> isWaveStart (wave_lines txt ! i) i"
  shows "parseWaves txt =
    [\<lparr> wave_index = 0, wave_content = ''Wave 1'', events = orphan_events (wave_lines txt) \<rparr>]"
proof -
  let ?ls = "wave_lines txt"
  let ?st = "\<lparr> waves = [], currentWave = None, orphanedLines = [] \<rparr>"
  have "\<forall>(i, l)\<in>set (enumerate 0 ?ls). \<not> isWaveStart l i"
    using assms(2) by (auto simp: in_set_enumerate_eq)
  then have "foldl wave_step ?st (enumerate 0 ?ls) = ?st\<lparr> orphanedLines := orphanedLines ?st @ map snd (enumerate 0 ?ls) \<rparr>"
    by (rule foldl_wave_step_orphans) simp
  then have "foldl wave_step ?st (enumerate 0 ?ls) = \<lparr> waves = [], currentWave = None, orphanedLines = ?ls \<rparr>"
    by simp
  then show ?thesis using assms(1) by (simp add: parseWaves_def wave_finish_def)
qed

lemma orphan_events_nth:
  "i < length ls \<Longrightarrow>
   orphan_events ls ! i = \<lparr> event_index = i, event_type = eventType (ls ! i), event_content = ls ! i \<rparr>"
  by (simp add: orphan_events_def nth_enumerate_eq)

lemma length_orphan_events: "length (orphan_events ls) = length ls"
  by (simp add: orphan_events_def)

lemma orphan_events_content: "map event_content (orphan_events ls) = ls"
  by (rule nth_equalityI) (simp_all add: length_orphan_events orphan_events_nth)

lemma parseWaves_example:
  "parseWaves example_waves =
     [\<lparr> wave_index = 0, wave_content = ''CreateTrain(1)'',
        events = [\<lparr> event_index = 0, event_type = ''AddBloon'', event_content = ''AddBloon(Red)'' \<rparr>] \<rparr>,
      \<lparr> wave_index = 1, wave_content = ''AddWave(2)'',
        events = [\<lparr> event_index = 0, event_type = ''AddBloon'', event_content = ''AddBloon(Blue)'' \<rparr>] \<rparr>]"
  by code_simp


text \<open>
  Claim C9, as stated, at the empty text: it has no wave-start line, and the parser
  returns no wave at all, not one synthetic wave.
\<close>

theorem wave_parser_counterexample:
  "wave_lines [] = [] \<and> parseWaves [] = []"
  by code_simp

text \<open>
  Claim C9, amended. The four lines of the example give two waves: wave 0 with the header
  \<^verbatim>\<open>CreateTrain(1)\<close> and one event of type \<^verbatim>\<open>AddBloon\<close>, wave 1 with the header \<^verbatim>\<open>AddWave(2)\<close>
  and one event of type \<^verbatim>\<open>AddBloon\<close>. A text with at least one non-blank line and no
  wave-start line gives exactly one wave, with the header \<^verbatim>\<open>Wave 1\<close>, whose events are the
  non-blank lines in their order. A text without any non-blank line gives no wave.
\<close>

theorem wave_parser_examples:
  "parseWaves example_waves =
     [\<lparr> wave_index = 0, wave_content = ''CreateTrain(1)'',
        events = [\<lparr> event_index = 0, event_type = ''AddBloon'', event_content = ''AddBloon(Red)'' \<rparr>] \<rparr>,
      \<lparr> wave_index = 1, wave_content = ''AddWave(2)'',
        events = [\<lparr> event_index = 0, event_type = ''AddBloon'', event_content = ''AddBloon(Blue)'' \<rparr>] \<rparr>]
   \<and> (wave_lines txt \<noteq> [] \<and> (\<forall>i<length (wave_lines txt). \<not> isWaveStart (wave_lines txt ! i) i) \<longrightarrow>
        parseWaves txt =
          [\<lparr> wave_index = 0, wave_content = ''Wave 1'', events = orphan_events (wave_lines txt) \<rparr>]
        \<and> map event_content (orphan_events (wave_lines txt)) = wave_lines txt)
   \<and> (wave_lines txt = [] \<longrightarrow> parseWaves txt = [])"
proof (intro conjI impI)
  show "parseWaves example_waves =
     [\<lparr> wave_index = 0, wave_content = ''CreateTrain(1)'',
        events = [\<lparr> event_index = 0, event_type = ''AddBloon'', event_content = ''AddBloon(Red)'' \<rparr>] \<rparr>,
      \<lparr> wave_index = 1, wave_content = ''AddWave(2)'',
        events = [\<lparr> event_index = 0, event_type = ''AddBloon'', event_content = ''AddBloon(Blue)'' \<rparr>] \<rparr>]"
    by (rule parseWaves_example)
next
  assume a: "wave_lines txt \<noteq> [] \<and> (\<forall>i<length (wave_lines txt). \<not> isWaveStart (wave_lines txt ! i) i)"
  show "parseWaves txt =
      [\<lparr> wave_index = 0, wave_content = ''Wave 1'', events = orphan_events (wave_lines txt) \<rparr>]"
    by (rule parseWaves_orphans [OF conjunct1 [OF a] conjunct2 [OF a]])
  show "map event_content (orphan_events (wave_lines txt)) = wave_lines txt"
    by (rule orphan_events_content)
next
  assume "wave_lines txt = []"
  then show "parseWaves txt = []"
    by (simp add: parseWaves_def wave_finish_def)
qed

theorem wave_parser_examples_witness:
  "wave_lines example_orphans = [''MoveTo 3'', ''AddBloon(Red)'']
   \<and> parseWaves example_orphans =
       [\<lparr> wave_index = 0, wave_content = ''Wave 1'',
          events = [\<lparr> event_index = 0, event_type = ''Unknown'', event_content = ''MoveTo 3'' \<rparr>,
                    \<lparr> event_index = 1, event_type = ''AddBloon'', event_content = ''AddBloon(Red)'' \<rparr>] \<rparr>]
   \<and> wave_lines example_blank = []
   \<and> parseWaves example_blank = []"
proof -
  have l: "wave_lines example_orphans = [''MoveTo 3'', ''AddBloon(Red)'']"
    by code_simp
  have n0: "\<not> isWaveStart ''MoveTo 3'' 0" by code_simp
  have n1: "\<not> isWaveStart ''AddBloon(Red)'' 1" by code_simp
  have h: "wave_lines example_orphans \<noteq> []
      \<and> (\<forall>i<length (wave_lines example_orphans). \<not> isWaveStart (wave_lines example_orphans ! i) i)"
    unfolding l using n0 n1 by (simp add: less_Suc_eq)
  have e: "orphan_events [''MoveTo 3'', ''AddBloon(Red)''] =
      [\<lparr> event_index = 0, event_type = ''Unknown'', event_content = ''MoveTo 3'' \<rparr>,
       \<lparr> event_index = 1, event_type = ''AddBloon'', event_content = ''AddBloon(Red)'' \<rparr>]"
    by code_simp
  have "parseWaves example_orphans =
      [\<lparr> wave_index = 0, wave_content = ''Wave 1'', events = orphan_events (wave_lines example_orphans) \<rparr>]"
    using mp [OF conjunct1 [OF conjunct2 [OF wave_parser_examples [of example_orphans]]] h]
    by (rule conjunct1)
  then have 1: "parseWaves example_orphans =
       [\<lparr> wave_index = 0, wave_content = ''Wave 1'',
          events = [\<lparr> event_index = 0, event_type = ''Unknown'', event_content = ''MoveTo 3'' \<rparr>,
                    \<lparr> event_index = 1, event_type = ''AddBloon'', event_content = ''AddBloon(Red)'' \<rparr>] \<rparr>]"
    using l e by simp
  have b: "wave_lines example_blank = []" by code_simp
  have 2: "parseWaves example_blank = []"
    by (rule mp [OF conjunct2 [OF conjunct2 [OF wave_parser_examples [of example_blank]]] b])
  show ?thesis using l 1 b 2 by (intro conjI)
qed

section \<open>Properties of the declaration parser\<close>

text \<open>
  Claim C5 at the line \<^verbatim>\<open>var arr = [1,2];\<close>: the line matches the first pattern, and the
  value of the record is \<^verbatim>\<open>[12]\<close>: the comma inside the brackets is removed together with
  the closing semicolon.
\<close>

theorem declaration_value_interior_comma:
  "parseEnvironmentVariables ''var arr = [1,2];'' =
     [\<lparr> var_name = ''arr'', var_value = ''[12]'', var_type = Array, category = ''General'',
        rawLine = ''var arr = [1,2];'' \<rparr>]"
  by code_simp

lemma in_map_filter: "r \<in> set (List.map_filter f xs) \<Longrightarrow> \<exists>x\<in>set xs. f x = Some r"
  by (induction xs) (auto split: option.splits)

lemma set_trim: "set (trim s) \<subseteq> set s"
proof -
  have "set (dropWhile is_space (rev (dropWhile is_space s))) \<subseteq> set (rev (dropWhile is_space s))"
    by (rule set_dropWhileD [THEN subsetI])
  also have "\<dots> \<subseteq> set s" by (auto dest: set_dropWhileD)
  finally show ?thesis by (simp add: trim_def)
qed

lemma clean_value_chars: "c \<in> set (clean_value v) \<Longrightarrow> c \<noteq> CHR '';'' \<and> c \<noteq> CHR '',''"
  using set_trim [of "filter (\<lambda>c. c \<noteq> CHR '';'' \<and> c \<noteq> CHR '','') v"]
  by (auto simp: clean_value_def)

lemma pattern_loop_value:
  "pattern_loop ps l = Some r \<Longrightarrow> \<exists>v. var_value r = clean_value v"
  by (induction ps) (auto split: option.splits)

text \<open>
  What the parser does to a value: no \<^verbatim>\<open>;\<close> and no \<^verbatim>\<open>,\<close> is left in the value of any
  record, wherever the character stood in the captured text.
\<close>

theorem declaration_value_no_separator:
  "r \<in> set (parseEnvironmentVariables txt) \<Longrightarrow>
   CHR '';'' \<notin> set (var_value r) \<and> CHR '','' \<notin> set (var_value r)"
proof -
  assume "r \<in> set (parseEnvironmentVariables txt)"
  then obtain l where "parse_line l = Some r"
    unfolding parseEnvironmentVariables_def using in_map_filter by fastforce
  then have "pattern_loop patterns (trim l) = Some r"
    by (simp add: parse_line_def Let_def split: if_splits)
  then obtain v where "var_value r = clean_value v" using pattern_loop_value by blast
  then show ?thesis using clean_value_chars [of _ v] by auto
qed

theorem declaration_value_no_separator_witness:
  "\<lparr> var_name = ''arr'', var_value = ''[12]'', var_type = Array, category = ''General'',
      rawLine = ''var arr = [1,2];'' \<rparr> \<in> set (parseEnvironmentVariables ''var arr = [1,2];'')
   \<and> CHR '','' \<notin> set ''[12]''"
proof -
  let ?r = "\<lparr> var_name = ''arr'', var_value = ''[12]'', var_type = Array, category = ''General'',
      rawLine = ''var arr = [1,2];'' \<rparr>"
  have "parseEnvironmentVariables ''var arr = [1,2];'' = [?r]" by code_simp
  then have m: "?r \<in> set (parseEnvironmentVariables ''var arr = [1,2];'')" by simp
  have "CHR '','' \<notin> set (var_value ?r)"
    using declaration_value_no_separator [OF m] by (rule conjunct2)
  then show ?thesis using m by simp
qed

section \<open>Properties of saving a variable\<close>

text \<open>
  Claim C10. Saving the edited record replaces exactly the records whose name is the
  current name of the edited record and leaves every other record as it is; when no
  record has that name, the list of records is unchanged (the edit is lost).
\<close>

theorem handleSaveVar_frame:
  assumes "editingVar st = Some e"
  shows "length (environmentVars (handleSaveVar st)) = length (environmentVars st)
    \<and> (\<forall>i<length (environmentVars st).
          environmentVars (handleSaveVar st) ! i =
            (if var_name (environmentVars st ! i) = var_name e then e else environmentVars st ! i))
    \<and> ((\<forall>v\<in>set (environmentVars st). var_name v \<noteq> var_name e) \<longrightarrow>
          environmentVars (handleSaveVar st) = environmentVars st)"
proof (intro conjI allI impI)
  let ?f = "\<lambda>v. if var_name v = var_name e then e else v"
  have h: "environmentVars (handleSaveVar st) = map ?f (environmentVars st)"
    using assms by (simp add: handleSaveVar_def)
  show "length (environmentVars (handleSaveVar st)) = length (environmentVars st)"
    by (simp add: h)
  show "environmentVars (handleSaveVar st) ! i =
      (if var_name (environmentVars st ! i) = var_name e then e else environmentVars st ! i)"
    if "i < length (environmentVars st)" for i
    using that by (simp add: h)
  show "environmentVars (handleSaveVar st) = environmentVars st"
    if n: "\<forall>v\<in>set (environmentVars st). var_name v \<noteq> var_name e"
  proof -
    have "map ?f (environmentVars st) = map (\<lambda>v. v) (environmentVars st)"
      by (rule map_cong) (use n in auto)
    then show ?thesis by (simp add: h)
  qed
qed

theorem handleSaveVar_frame_witness:
  "environmentVars (handleSaveVar renamed_edit) = [var_speed, var_debug]
   \<and> environmentVars (handleSaveVar value_edit) ! 0 = var_speed\<lparr> var_value := ''5'' \<rparr>
   \<and> environmentVars (handleSaveVar value_edit) ! 1 = var_debug"
proof -
  let ?e = "var_speed\<lparr> var_name := ''velocity'', var_value := ''5'' \<rparr>"
  let ?d = "var_speed\<lparr> var_value := ''5'' \<rparr>"
  have r: "editingVar renamed_edit = Some ?e" by (simp add: renamed_edit_def)
  have v: "editingVar value_edit = Some ?d" by (simp add: value_edit_def)
  have n: "\<forall>v\<in>set (environmentVars renamed_edit). var_name v \<noteq> var_name ?e"
    by (simp add: renamed_edit_def var_speed_def var_debug_def)
  have 1: "environmentVars (handleSaveVar renamed_edit) = environmentVars renamed_edit"
    by (rule mp [OF conjunct2 [OF conjunct2 [OF handleSaveVar_frame [OF r]]] n])
  have a: "\<forall>i<length (environmentVars value_edit).
      environmentVars (handleSaveVar value_edit) ! i =
        (if var_name (environmentVars value_edit ! i) = var_name ?d then ?d else environmentVars value_edit ! i)"
    by (rule conjunct1 [OF conjunct2 [OF handleSaveVar_frame [OF v]]])
  have 2: "environmentVars (handleSaveVar value_edit) ! 0 = ?d"
    using mp [OF spec [OF a, of 0]] by (simp add: value_edit_def var_speed_def)
  have 3: "environmentVars (handleSaveVar value_edit) ! 1 = var_debug"
    using mp [OF spec [OF a, of 1]] by (simp add: value_edit_def var_speed_def var_debug_def)
  show ?thesis using 1 2 3 by (simp add: renamed_edit_def)
qed

end
